theory Spec2Isabelle
  imports Main "HOL-Library.Product_Lexorder"
begin

section \<open>Text, dates and errors\<close>

text \<open>
  A Python \<open>str\<close> is a sequence of Unicode code points, and \<open>len\<close>, slicing and
  \<open>strip\<close> count code points. A text is therefore a list of code points; \<open>ascii\<close>
  writes an ASCII literal.
\<close>

type_synonym ustr = "nat list"

definition ascii :: "string \<Rightarrow> ustr" where
  "ascii s = map of_char s"

text \<open>The exceptions that the ingestion script can raise in the parts modelled here.\<close>

datatype error = ValueError | AttributeError | TypeError | JSONDecodeError

text \<open>
  \<open>str.isspace\<close> for one character: the code points for which CPython's
  \<open>Py_UNICODE_ISSPACE\<close> holds. \<open>str.strip()\<close> without an argument removes them from
  both ends.
\<close>

definition py_isspace :: "nat \<Rightarrow> bool" where
  "py_isspace c \<longleftrightarrow> c \<in> set [9, 10, 11, 12, 13, 28, 29, 30, 31, 32, 133, 160, 5760,
     8192, 8193, 8194, 8195, 8196, 8197, 8198, 8199, 8200, 8201, 8202,
     8232, 8233, 8239, 8287, 12288]"

definition py_strip :: "ustr \<Rightarrow> ustr" where
  "py_strip s = rev (dropWhile py_isspace (rev (dropWhile py_isspace s)))"

text \<open>\<open>s.replace(a, b)\<close> for one-character \<open>a\<close>: every occurrence is replaced (by the
  characters of \<open>b\<close>, which may be none).\<close>

definition py_replace1 :: "nat \<Rightarrow> ustr \<Rightarrow> ustr \<Rightarrow> ustr" where
  "py_replace1 a b s = concat (map (\<lambda>c. if c = a then b else [c]) s)"

text \<open>\<open>normalize_code\<close>: \<open>code.replace("/", "_").replace("\\", "_")\<close>.\<close>

definition normalize_code :: "ustr \<Rightarrow> ustr" where
  "normalize_code code = py_replace1 92 [95] (py_replace1 47 [95] code)"

text \<open>
  A \<open>datetime.date\<close>. Python compares dates as the triples (year, month, day); \<open>ymd\<close> is
  that triple, ordered lexicographically.
\<close>

record date =
  year :: nat
  month :: nat
  day :: nat

definition ymd :: "date \<Rightarrow> nat \<times> nat \<times> nat" where
  "ymd d = (year d, month d, day d)"

definition leap :: "nat \<Rightarrow> bool" where
  "leap y \<longleftrightarrow> y mod 4 = 0 \<and> (y mod 100 \<noteq> 0 \<or> y mod 400 = 0)"

definition days_in_month :: "nat \<Rightarrow> nat \<Rightarrow> nat" where
  "days_in_month y m =
     (if m = 2 then (if leap y then 29 else 28)
      else if m = 4 \<or> m = 6 \<or> m = 9 \<or> m = 11 then 30 else 31)"

text \<open>The dates that exist as \<open>datetime.date\<close> objects (years 1 to 9999).\<close>

definition valid_date :: "date \<Rightarrow> bool" where
  "valid_date d \<longleftrightarrow> 1 \<le> year d \<and> year d \<le> 9999 \<and> 1 \<le> month d \<and> month d \<le> 12
     \<and> 1 \<le> day d \<and> day d \<le> days_in_month (year d) (month d)"

subsection \<open>Writing and reading a deadline: \<open>strftime("%d %b %Y")\<close> and \<open>to_d\<close>\<close>

definition digit :: "nat \<Rightarrow> nat" where
  "digit n = 48 + n mod 10"

definition is_digit :: "nat \<Rightarrow> bool" where
  "is_digit c \<longleftrightarrow> 48 \<le> c \<and> c \<le> 57"

definition digit_val :: "nat \<Rightarrow> nat" where
  "digit_val c = c - 48"

definition ascii_lower :: "nat \<Rightarrow> nat" where
  "ascii_lower c = (if 65 \<le> c \<and> c \<le> 90 then c + 32 else c)"

definition month_names :: "ustr list" where
  "month_names = map ascii [''Jan'', ''Feb'', ''Mar'', ''Apr'', ''May'', ''Jun'',
     ''Jul'', ''Aug'', ''Sep'', ''Oct'', ''Nov'', ''Dec'']"

text \<open>
  \<open>d.strftime("%d %b %Y")\<close> in the C locale, which the script never changes: the day
  in two digits, the English month abbreviation, the year. The year is written in four
  digits, which is what every platform does from the year 1000 on (below that the C
  library decides whether to pad).
\<close>

definition strftime_dbY :: "date \<Rightarrow> ustr" where
  "strftime_dbY d =
     [digit (day d div 10), digit (day d)] @ [32] @ month_names ! (month d - 1) @ [32]
     @ [digit (year d div 1000), digit (year d div 100), digit (year d div 10), digit (year d)]"

text \<open>
  \<open>datetime.strptime(s, "%d %b %Y")\<close> matches the whole of \<open>s\<close> against
  \<^verbatim>\<open>(3[0-1]|[1-2]\d|0[1-9]|[1-9]| [1-9])\s+(jan|...|dec)\s+(\d\d\d\d)\<close>, ignoring case,
  and then builds the date, which fails when the day does not exist in that month or the
  year is 0. The three fields are read from left to right; no backtracking is needed,
  since what follows a field never starts with a character the field could have taken.
  The text parsed by this program is always one written by \<open>strftime_dbY\<close>; digits and
  letters outside ASCII, which the library would also accept, do not occur in it.
\<close>

definition day_field :: "ustr \<Rightarrow> (nat \<times> ustr) option" where
  "day_field s =
     (case s of
        c1 # c2 # r \<Rightarrow>
          if is_digit c1 \<and> is_digit c2 then
            (let v = 10 * digit_val c1 + digit_val c2
             in if 1 \<le> v \<and> v \<le> 31 then Some (v, r) else None)
          else if is_digit c1 \<and> c1 \<noteq> 48 then Some (digit_val c1, c2 # r)
          else if c1 = 32 \<and> is_digit c2 \<and> c2 \<noteq> 48 then Some (digit_val c2, r)
          else None
      | _ \<Rightarrow> None)"

definition ws1 :: "ustr \<Rightarrow> ustr option" where
  "ws1 s = (case s of
              c # r \<Rightarrow> if py_isspace c then Some (dropWhile py_isspace r) else None
            | [] \<Rightarrow> None)"

fun index_of :: "'a \<Rightarrow> 'a list \<Rightarrow> nat option" where
  "index_of x [] = None"
| "index_of x (y # ys) = (if x = y then Some 0 else map_option Suc (index_of x ys))"

definition month_field :: "ustr \<Rightarrow> (nat \<times> ustr) option" where
  "month_field s =
     (if length s < 3 then None
      else case index_of (map ascii_lower (take 3 s)) (map (map ascii_lower) month_names) of
             None \<Rightarrow> None
           | Some i \<Rightarrow> Some (Suc i, drop 3 s))"

definition year_field :: "ustr \<Rightarrow> nat option" where
  "year_field s =
     (case s of
        [a, b, c, d] \<Rightarrow>
          if is_digit a \<and> is_digit b \<and> is_digit c \<and> is_digit d
          then Some (1000 * digit_val a + 100 * digit_val b + 10 * digit_val c + digit_val d)
          else None
      | _ \<Rightarrow> None)"

definition strptime_dbY :: "ustr \<Rightarrow> date option" where
  "strptime_dbY s =
     (case day_field s of None \<Rightarrow> None | Some (dd, r1) \<Rightarrow>
      case ws1 r1 of None \<Rightarrow> None | Some r2 \<Rightarrow>
      case month_field r2 of None \<Rightarrow> None | Some (mm, r3) \<Rightarrow>
      case ws1 r3 of None \<Rightarrow> None | Some r4 \<Rightarrow>
      case year_field r4 of None \<Rightarrow> None | Some yy \<Rightarrow>
        if 1 \<le> yy \<and> dd \<le> days_in_month yy mm
        then Some \<lparr>year = yy, month = mm, day = dd\<rparr> else None)"

text \<open>\<open>to_d\<close>: \<open>dt.datetime.strptime(s, "%d %b %Y").date()\<close>, which raises \<open>ValueError\<close> on
  a text it cannot read.\<close>

definition to_d :: "ustr \<Rightarrow> error + date" where
  "to_d s = (case strptime_dbY s of None \<Rightarrow> Inl ValueError | Some d \<Rightarrow> Inr d)"

text \<open>The dates whose year the two functions write and read in four digits.\<close>

definition printable :: "date \<Rightarrow> bool" where
  "printable d \<longleftrightarrow> valid_date d \<and> 1000 \<le> year d"

section \<open>The merge engine (ingest.py, part 3)\<close>

text \<open>
  The rows that the script keeps as dictionaries. A PDF row has the keys \<open>code\<close> and
  \<open>deadline\<close>; a merged row adds \<open>status\<close> and \<open>budget\<close>; a row fetched from the API has
  those four and \<open>title\<close>. The deadline is stored as text. \<open>'f\<close> is the type of Python's
  floats, of which the merge only passes values on.
\<close>

datatype status = OPEN | CLOSED

record pdf_row =
  code :: ustr
  deadline :: ustr

record 'f merged_row = pdf_row +
  status :: status
  budget :: "'f option"

record 'f fresh_row = "'f merged_row" +
  title :: ustr

text \<open>\<open>"OPEN" if d >= TODAY else "CLOSED"\<close>.\<close>

definition status_of :: "date \<Rightarrow> date \<Rightarrow> status" where
  "status_of today d = (if ymd today \<le> ymd d then OPEN else CLOSED)"

text \<open>The row appended for a mined date (line 158) and for a fetched item (lines 106-112).\<close>

definition pdf_row_of :: "ustr \<Rightarrow> date \<Rightarrow> pdf_row" where
  "pdf_row_of c d = \<lparr>code = c, deadline = strftime_dbY d\<rparr>"

definition fresh_row_of :: "date \<Rightarrow> ustr \<Rightarrow> ustr \<Rightarrow> date \<Rightarrow> 'f option \<Rightarrow> 'f fresh_row" where
  "fresh_row_of today c t d b =
     \<lparr>code = c, deadline = strftime_dbY d, status = status_of today d, budget = b, title = t\<rparr>"

text \<open>
  \<open>latest\<close> is a Python dictionary, which keeps its keys in insertion order: assigning to
  a key that is present replaces the value where it stands, assigning to a new key appends.
  The order matters, because the final sort is stable.
\<close>

fun dict_set :: "'k \<Rightarrow> 'v \<Rightarrow> ('k \<times> 'v) list \<Rightarrow> ('k \<times> 'v) list" where
  "dict_set k v [] = [(k, v)]"
| "dict_set k v ((k', v') # kvs) =
     (if k' = k then (k, v) # kvs else (k', v') # dict_set k v kvs)"

text \<open>Lines 182-183: \<open>for r in pdf_rows: latest[r["code"]] = to_d(r["deadline"])\<close>.\<close>

fun seed_pdf :: "pdf_row list \<Rightarrow> (ustr \<times> date) list \<Rightarrow> error + (ustr \<times> date) list" where
  "seed_pdf [] latest = Inr latest"
| "seed_pdf (r # rs) latest =
     (case to_d (deadline r) of
        Inl e \<Rightarrow> Inl e
      | Inr d \<Rightarrow> seed_pdf rs (dict_set (code r) d latest))"

text \<open>Lines 186-191: the API rows override a deadline that is missing or earlier, and
  their budgets are recorded.\<close>

definition api_step ::
  "ustr \<Rightarrow> date \<Rightarrow> 'f option \<Rightarrow> (ustr \<times> date) list \<times> (ustr \<rightharpoonup> 'f)
     \<Rightarrow> (ustr \<times> date) list \<times> (ustr \<rightharpoonup> 'f)" where
  "api_step c d b st =
     (let latest = fst st; budgets = snd st;
          latest' = (case map_of latest c of
                       None \<Rightarrow> dict_set c d latest
                     | Some cur \<Rightarrow> if ymd cur < ymd d then dict_set c d latest else latest);
          budgets' = (case b of Some v \<Rightarrow> budgets(c \<mapsto> v) | None \<Rightarrow> budgets)
      in (latest', budgets'))"

fun overlay_api ::
  "'f fresh_row list \<Rightarrow> (ustr \<times> date) list \<times> (ustr \<rightharpoonup> 'f)
     \<Rightarrow> error + (ustr \<times> date) list \<times> (ustr \<rightharpoonup> 'f)" where
  "overlay_api [] st = Inr st"
| "overlay_api (r # rs) st =
     (case to_d (deadline r) of
        Inl e \<Rightarrow> Inl e
      | Inr d \<Rightarrow> overlay_api rs (api_step (code r) d (budget r) st))"

text \<open>Lines 194-201: one merged row for each key of \<open>latest\<close>, in the dictionary's order.\<close>

definition build_merged ::
  "date \<Rightarrow> (ustr \<times> date) list \<Rightarrow> (ustr \<rightharpoonup> 'f) \<Rightarrow> 'f merged_row list" where
  "build_merged today latest budgets =
     map (\<lambda>(c, d). \<lparr>code = c, deadline = strftime_dbY d, status = status_of today d,
                     budget = budgets c\<rparr>) latest"

text \<open>
  Line 203: \<open>merged.sort(key=lambda x: to_d(x["deadline"]))\<close>. \<open>list.sort\<close> computes the
  key of every element first (an exception of the key function ends the sort), and then
  sorts stably by the keys.
\<close>

fun sort_keys :: "'f merged_row list \<Rightarrow> error + ((nat \<times> nat \<times> nat) \<times> 'f merged_row) list" where
  "sort_keys [] = Inr []"
| "sort_keys (x # xs) =
     (case to_d (deadline x) of
        Inl e \<Rightarrow> Inl e
      | Inr d \<Rightarrow> (case sort_keys xs of
                    Inl e \<Rightarrow> Inl e
                  | Inr ks \<Rightarrow> Inr ((ymd d, x) # ks)))"

definition sort_by_deadline :: "'f merged_row list \<Rightarrow> error + 'f merged_row list" where
  "sort_by_deadline xs =
     (case sort_keys xs of Inl e \<Rightarrow> Inl e | Inr ks \<Rightarrow> Inr (map snd (sort_key fst ks)))"

definition merge :: "date \<Rightarrow> pdf_row list \<Rightarrow> 'f fresh_row list \<Rightarrow> error + 'f merged_row list" where
  "merge today pdf_rows fresh_rows =
     (case seed_pdf pdf_rows [] of
        Inl e \<Rightarrow> Inl e
      | Inr latest0 \<Rightarrow>
          (case overlay_api fresh_rows (latest0, Map.empty) of
             Inl e \<Rightarrow> Inl e
           | Inr (latest, budgets) \<Rightarrow> sort_by_deadline (build_merged today latest budgets)))"

text \<open>
  The override rule of the specification, for one programme code: start from the deadline
  seeded from the PDFs, if there is one, and let each API deadline for the code replace
  the current one when there is none yet or the API deadline is strictly later.
\<close>

definition later_wins :: "date option \<Rightarrow> date list \<Rightarrow> date option" where
  "later_wins seed api =
     foldl (\<lambda>cur d. case cur of None \<Rightarrow> Some d
                      | Some x \<Rightarrow> if ymd x < ymd d then Some d else Some x) seed api"

text \<open>
  The rows as the two earlier stages hand them over: each PDF candidate is a code with a
  mined date, each API record a code, a title, a deadline and a budget, if any.
  \<open>pdf_seed\<close> is the date seeded for a code (a later PDF row overwrites an earlier one for
  the same code), \<open>api_deadlines\<close> the API deadlines for a code in the order of the rows.
\<close>

definition pdf_rows_of :: "(ustr \<times> date) list \<Rightarrow> pdf_row list" where
  "pdf_rows_of pds = map (\<lambda>(c, d). pdf_row_of c d) pds"

definition fresh_rows_of ::
  "date \<Rightarrow> (ustr \<times> ustr \<times> date \<times> 'f option) list \<Rightarrow> 'f fresh_row list" where
  "fresh_rows_of today fds = map (\<lambda>(c, t, d, b). fresh_row_of today c t d b) fds"

definition pdf_seed :: "ustr \<Rightarrow> (ustr \<times> date) list \<Rightarrow> date option" where
  "pdf_seed c pds = map_of (rev pds) c"

definition api_deadlines :: "ustr \<Rightarrow> (ustr \<times> ustr \<times> date \<times> 'f option) list \<Rightarrow> date list" where
  "api_deadlines c fds = map (\<lambda>(c', t, d, b). d) (filter (\<lambda>(c', t, d, b). c' = c) fds)"

definition api_codes :: "(ustr \<times> ustr \<times> date \<times> 'f option) list \<Rightarrow> ustr set" where
  "api_codes fds = set (map (\<lambda>(c, t, d, b). c) fds)"

section \<open>The PDF stage (ingest.py, part 2)\<close>

subsection \<open>The two regular expressions\<close>

text \<open>
  Both patterns are compiled with \<open>re.I\<close> and applied to \<open>str\<close> values, so the engine
  consults the Unicode database for every character it reads: its simple lowercase
  mapping (for a letter of the pattern), whether it is a decimal digit (for \<^verbatim>\<open>\d\<close>) and
  whether it is white space (for \<^verbatim>\<open>\s\<close>, the same characters as \<open>py_isspace\<close>). The first
  two tables are not part of this program; they are parameters of the model.
  \<open>classify\<close> looks them up for one character: the code point, its lowercase, and
  whether it is a decimal digit.
\<close>

record unidata =
  u_tolower :: "nat \<Rightarrow> nat"
  u_isdecimal :: "nat \<Rightarrow> bool"

type_synonym cchar = "nat \<times> nat \<times> bool"

definition classify :: "unidata \<Rightarrow> nat \<Rightarrow> cchar" where
  "classify U c = (c, u_tolower U c, u_isdecimal U c)"

text \<open>The two tables on ASCII, where they are the familiar ones.\<close>

definition ascii_db :: unidata where
  "ascii_db = \<lparr>u_tolower = ascii_lower, u_isdecimal = is_digit\<rparr>"

definition ascii_exact :: "unidata \<Rightarrow> bool" where
  "ascii_exact U \<longleftrightarrow>
     (\<forall>c \<in> set [0..<128]. u_tolower U c = ascii_lower c \<and> u_isdecimal U c = is_digit c)"

text \<open>
  A character of a pattern. Under \<open>re.I\<close> the compiler turns a cased pattern character
  into a test on the lowercase of the text character: it must be the lowercase of the
  pattern character or one of the characters the \<open>re\<close> module lists as equivalent to it
  (for \<open>i\<close>, \<open>s\<close> and the micro sign: dotless i, long s and Greek mu). A pattern character
  without case is compared as it is. \<open>pat_lit\<close> is that compilation for the characters
  which occur in the two patterns of this program.
\<close>

datatype lit = Exact nat | Fold "nat list"

fun lit_ok :: "lit \<Rightarrow> cchar \<Rightarrow> bool" where
  "lit_ok (Exact p) (c, l, d) \<longleftrightarrow> c = p"
| "lit_ok (Fold ps) (c, l, d) \<longleftrightarrow> l \<in> set ps"

definition pat_lit :: "nat \<Rightarrow> lit" where
  "pat_lit p =
     (if p = 105 then Fold [105, 305]
      else if p = 115 then Fold [115, 383]
      else if p = 181 then Fold [181, 956]
      else if 97 \<le> p \<and> p \<le> 122 then Fold [p]
      else if p = 206 then Fold [238]
      else if p = 207 then Fold [239]
      else if p = 402 then Fold [402]
      else Exact p)"

definition pat :: "ustr \<Rightarrow> lit list" where
  "pat s = map pat_lit s"

text \<open>
  A matcher reads a classified text from its start and returns the length of the match
  the backtracking engine finds first, if there is one. Every construct takes the
  matcher of what follows it, so that a failure further on makes it try its next
  choice, as the engine does: \<open>m_alt\<close> tries its branches in order, \<open>m_opt\<close> tries the
  optional part before leaving it out, \<open>m_ws\<close> (\<^verbatim>\<open>\s+\<close>) takes as much white space as
  it can before giving some back, \<open>m_d12\<close> (\<^verbatim>\<open>\d{1,2}\<close>) tries two digits before one.
\<close>

type_synonym matcher = "cchar list \<Rightarrow> nat option"

definition m_end :: matcher where
  "m_end cs = Some 0"

fun m_lits :: "lit list \<Rightarrow> matcher \<Rightarrow> matcher" where
  "m_lits [] k cs = k cs"
| "m_lits (p # ps) k [] = None"
| "m_lits (p # ps) k (c # cs) = (if lit_ok p c then map_option Suc (m_lits ps k cs) else None)"

fun m_alt :: "matcher list \<Rightarrow> matcher" where
  "m_alt [] cs = None"
| "m_alt (m # ms) cs = (case m cs of Some n \<Rightarrow> Some n | None \<Rightarrow> m_alt ms cs)"

definition m_opt :: "(matcher \<Rightarrow> matcher) \<Rightarrow> matcher \<Rightarrow> matcher" where
  "m_opt body k cs = (case body k cs of Some n \<Rightarrow> Some n | None \<Rightarrow> k cs)"

definition m_digit :: "matcher \<Rightarrow> matcher" where
  "m_digit k cs =
     (case cs of
        (c, l, d) # r \<Rightarrow> if d then map_option Suc (k r) else None
      | [] \<Rightarrow> None)"

definition m_d12 :: "matcher \<Rightarrow> matcher" where
  "m_d12 k = m_digit (m_opt m_digit k)"

fun m_ws :: "matcher \<Rightarrow> matcher" where
  "m_ws k [] = None"
| "m_ws k ((c, l, d) # r) =
     (if py_isspace c
      then (case m_ws k r of Some n \<Rightarrow> Some (Suc n) | None \<Rightarrow> map_option Suc (k r))
      else None)"

text \<open>\<^verbatim>\<open>[./-]\<close> and \<^verbatim>\<open>20\d{2}\<close>.\<close>

definition m_sep :: "matcher \<Rightarrow> matcher" where
  "m_sep k cs =
     (case cs of
        (c, l, d) # r \<Rightarrow> if c = 46 \<or> c = 47 \<or> c = 45 then map_option Suc (k r) else None
      | [] \<Rightarrow> None)"

definition m_year :: "matcher \<Rightarrow> matcher" where
  "m_year k = m_lits [Exact 50, Exact 48] (m_digit (m_digit k))"

text \<open>
  \<open>KW_RE\<close> (line 121): five alternatives. The second and the fifth are taken character
  by character from the source file, where they are not ASCII.
\<close>

definition kw_alternatives :: "ustr list" where
  "kw_alternatives =
     [ascii ''deadline'',
      [207, 8364, 207, 206, 191, 206, 184, 206, 181, 207, 402, 206, 188],
      ascii ''submission'',
      ascii ''closing date'',
      [206, 187, 206, 174, 206, 190, 206, 183]]"

definition KW_RE :: matcher where
  "KW_RE = m_alt (map (\<lambda>a. m_lits (pat a) m_end) kw_alternatives)"

text \<open>
  \<open>DATE_RE\<close> (lines 122-129): a numeric date with separators, or a day, a month name
  (abbreviated or in full) and a year, the year starting with 20 in both.
\<close>

definition m_month :: "matcher \<Rightarrow> matcher" where
  "m_month k =
     m_alt
       [m_lits (pat (ascii ''jan'')) (m_opt (m_lits (pat (ascii ''uary''))) k),
        m_lits (pat (ascii ''feb'')) (m_opt (m_lits (pat (ascii ''ruary''))) k),
        m_lits (pat (ascii ''mar'')) (m_opt (m_lits (pat (ascii ''ch''))) k),
        m_lits (pat (ascii ''apr'')) (m_opt (m_lits (pat (ascii ''il''))) k),
        m_lits (pat (ascii ''may'')) k,
        m_lits (pat (ascii ''jun'')) (m_opt (m_lits (pat (ascii ''e''))) k),
        m_lits (pat (ascii ''jul'')) (m_opt (m_lits (pat (ascii ''y''))) k),
        m_lits (pat (ascii ''aug'')) (m_opt (m_lits (pat (ascii ''ust''))) k),
        m_lits (pat (ascii ''sep''))
          (m_opt (\<lambda>k'. m_lits (pat (ascii ''t'')) (m_opt (m_lits (pat (ascii ''ember''))) k')) k),
        m_lits (pat (ascii ''oct'')) (m_opt (m_lits (pat (ascii ''ober''))) k),
        m_lits (pat (ascii ''nov'')) (m_opt (m_lits (pat (ascii ''ember''))) k),
        m_lits (pat (ascii ''dec'')) (m_opt (m_lits (pat (ascii ''ember''))) k)]"

definition DATE_RE :: matcher where
  "DATE_RE =
     m_alt
       [m_d12 (m_sep (m_d12 (m_sep (m_year m_end)))),
        m_d12 (m_ws (m_month (m_ws (m_year m_end))))]"

text \<open>
  \<open>finditer\<close>: the matches from left to right, as pairs of start and end, none
  overlapping another; after a match the search goes on where the match ended. \<open>skip\<close>
  counts the characters of the last match still to be passed over.
\<close>

fun scan :: "matcher \<Rightarrow> nat \<Rightarrow> nat \<Rightarrow> cchar list \<Rightarrow> (nat \<times> nat) list" where
  "scan m pos skip [] = []"
| "scan m pos skip (c # cs) =
     (if 0 < skip then scan m (pos + 1) (skip - 1) cs
      else case m (c # cs) of
             Some n \<Rightarrow> (pos, pos + n) # scan m (pos + 1) (n - 1) cs
           | None \<Rightarrow> scan m (pos + 1) 0 cs)"

definition finditer :: "matcher \<Rightarrow> unidata \<Rightarrow> ustr \<Rightarrow> (nat \<times> nat) list" where
  "finditer m U s = scan m 0 0 (map (classify U) s)"

subsection \<open>Mining the deadlines of one document\<close>

definition WIN :: nat where
  "WIN = 300"

definition CHUNK_SZ :: nat where
  "CHUNK_SZ = 400"

text \<open>\<open>s[i:j]\<close> for indices that are not negative.\<close>

definition py_slice :: "nat \<Rightarrow> nat \<Rightarrow> 'a list \<Rightarrow> 'a list" where
  "py_slice i j s = take (j - i) (drop i s)"

text \<open>
  Lines 152-156. \<open>date_strings\<close> are the texts \<open>m.group()\<close> of the comprehension, in its
  order: for every keyword match, the date matches inside
  \<open>txt[max(0, km.start() - WIN) : km.end() + WIN]\<close>. Each is handed to
  \<open>dateparser.parse\<close>, a library function, which is the parameter \<open>parse\<close> here: it returns
  a date and time, of which \<open>.date()\<close> keeps the date, or \<open>None\<close>, and then \<open>.date()\<close> raises
  \<open>AttributeError\<close>. Nothing in the script catches it.
\<close>

definition window :: "ustr \<Rightarrow> nat \<times> nat \<Rightarrow> ustr" where
  "window txt km = py_slice (fst km - WIN) (snd km + WIN) txt"

definition date_strings :: "unidata \<Rightarrow> ustr \<Rightarrow> ustr list" where
  "date_strings U txt =
     concat (map (\<lambda>km. map (\<lambda>(s, e). py_slice s e (window txt km))
                          (finditer DATE_RE U (window txt km)))
                 (finditer KW_RE U txt))"

fun parse_dates :: "(ustr \<Rightarrow> date option) \<Rightarrow> ustr list \<Rightarrow> error + date list" where
  "parse_dates parse [] = Inr []"
| "parse_dates parse (s # ss) =
     (case parse s of
        None \<Rightarrow> Inl AttributeError
      | Some d \<Rightarrow> (case parse_dates parse ss of
                     Inl e \<Rightarrow> Inl e
                   | Inr ds \<Rightarrow> Inr (d # ds)))"

text \<open>Line 157: \<open>sorted(found)[:2]\<close>, \<open>found\<close> being a set.\<close>

definition mine_dates :: "unidata \<Rightarrow> (ustr \<Rightarrow> date option) \<Rightarrow> ustr \<Rightarrow> error + date list" where
  "mine_dates U parse txt =
     (case parse_dates parse (date_strings U txt) of
        Inl e \<Rightarrow> Inl e
      | Inr ds \<Rightarrow> Inr (take 2 (sort_key ymd (remdups ds))))"

subsection \<open>Chunking, embedding and indexing one document\<close>

text \<open>
  \<open>embed_text\<close> of utils.py: the sentence encoder, and the division by the norm with the
  cast to 32-bit floats and the reshaping to one row. Both steps are numerics of
  libraries; they are the parameters \<open>encode\<close> and \<open>unit_row\<close>, and \<open>'v\<close> is the type of
  the vectors.
\<close>

definition embed_text :: "(ustr \<Rightarrow> 'v) \<Rightarrow> ('v \<Rightarrow> 'v) \<Rightarrow> ustr \<Rightarrow> 'v" where
  "embed_text encode unit_row t = unit_row (encode t)"

text \<open>The metadata record \<open>{"text": chunk, "source": pdf.name}\<close>.\<close>

record meta_entry =
  meta_text :: ustr
  meta_source :: ustr

text \<open>\<open>range(i, stop, step)\<close> for a step that is not negative; Python refuses the step 0,
  which \<open>chunk_loop\<close> checks before it calls this.\<close>

function range_from :: "nat \<Rightarrow> nat \<Rightarrow> nat \<Rightarrow> nat list" where
  "range_from i stop step =
     (if step = 0 \<or> stop \<le> i then [] else i # range_from (i + step) stop step)"
  by pat_completeness auto
termination
  by (relation "measure (\<lambda>(i, stop, step). stop - i)") auto

declare range_from.simps [simp del]

text \<open>
  Lines 160-164. The similarity index is the list of the vectors added to it, in the
  order of \<open>idx.add\<close>, which appends the one row it is given; \<open>meta\<close> is the list of the
  metadata records. One turn of the loop, for the offset \<open>i\<close>:
\<close>

definition chunk_step ::
  "(ustr \<Rightarrow> 'v) \<Rightarrow> ustr \<Rightarrow> ustr \<Rightarrow> nat \<Rightarrow> 'v list \<times> meta_entry list \<Rightarrow> nat
     \<Rightarrow> 'v list \<times> meta_entry list" where
  "chunk_step emb name txt C st i =
     (let chunk = py_strip (py_slice i (i + C) txt)
      in if chunk \<noteq> []
         then (fst st @ [emb chunk], snd st @ [\<lparr>meta_text = chunk, meta_source = name\<rparr>])
         else st)"

definition chunk_loop ::
  "(ustr \<Rightarrow> 'v) \<Rightarrow> ustr \<Rightarrow> ustr \<Rightarrow> nat \<Rightarrow> 'v list \<times> meta_entry list
     \<Rightarrow> error + 'v list \<times> meta_entry list" where
  "chunk_loop emb name txt C st =
     (if C = 0 then Inl ValueError
      else Inr (foldl (chunk_step emb name txt C) st (range_from 0 (length txt) C)))"

text \<open>The windows the loop cuts a text into, in order.\<close>

definition windows :: "nat \<Rightarrow> ustr \<Rightarrow> ustr list" where
  "windows C txt = map (\<lambda>i. py_slice i (i + C) txt) (range_from 0 (length txt) C)"

text \<open>
  The invariant of the index and the metadata list (section 3 of the specification):
  they have the same length, and the vector at a position is the embedding of the text
  of the metadata record at that position.
\<close>

definition aligned :: "(ustr \<Rightarrow> 'v) \<Rightarrow> 'v list \<times> meta_entry list \<Rightarrow> bool" where
  "aligned emb st \<longleftrightarrow>
     length (fst st) = length (snd st)
     \<and> (\<forall>i < length (snd st). fst st ! i = emb (meta_text (snd st ! i)))"

subsection \<open>The loop over the PDF files\<close>

text \<open>
  Lines 144-164. Of a PDF file the script uses its name, its stem, and for every page
  the text layer and, when that is empty after trimming, what the OCR reads from the
  page; opening the file and the OCR are the work of libraries, and their results are
  the input here. (The counter of OCR calls only feeds a log line and is left out.)
\<close>

record page =
  text_layer :: ustr
  ocr_text :: ustr

record pdf_file =
  pdf_name :: ustr
  pdf_stem :: ustr
  pdf_pages :: "page list"

definition page_text :: "page \<Rightarrow> ustr" where
  "page_text pg = (let t = py_strip (text_layer pg) in if t \<noteq> [] then t else ocr_text pg)"

fun py_join :: "ustr \<Rightarrow> ustr list \<Rightarrow> ustr" where
  "py_join sep [] = []"
| "py_join sep [s] = s"
| "py_join sep (s # t # ts) = s @ sep @ py_join sep (t # ts)"

definition doc_text :: "pdf_file \<Rightarrow> ustr" where
  "doc_text f = py_join [10] (map page_text (pdf_pages f))"

definition pdf_step ::
  "unidata \<Rightarrow> (ustr \<Rightarrow> date option) \<Rightarrow> (ustr \<Rightarrow> 'v)
     \<Rightarrow> pdf_row list \<times> 'v list \<times> meta_entry list \<Rightarrow> pdf_file
     \<Rightarrow> error + pdf_row list \<times> 'v list \<times> meta_entry list" where
  "pdf_step U parse emb st f =
     (let c = normalize_code (pdf_stem f); txt = doc_text f
      in case mine_dates U parse txt of
           Inl e \<Rightarrow> Inl e
         | Inr ds \<Rightarrow>
             (case chunk_loop emb (pdf_name f) txt CHUNK_SZ (snd st) of
                Inl e \<Rightarrow> Inl e
              | Inr im \<Rightarrow> Inr (fst st @ map (pdf_row_of c) ds, im)))"

fun pdf_loop ::
  "unidata \<Rightarrow> (ustr \<Rightarrow> date option) \<Rightarrow> (ustr \<Rightarrow> 'v)
     \<Rightarrow> pdf_row list \<times> 'v list \<times> meta_entry list \<Rightarrow> pdf_file list
     \<Rightarrow> error + pdf_row list \<times> 'v list \<times> meta_entry list" where
  "pdf_loop U parse emb st [] = Inr st"
| "pdf_loop U parse emb st (f # fs) =
     (case pdf_step U parse emb st f of
        Inl e \<Rightarrow> Inl e
      | Inr st' \<Rightarrow> pdf_loop U parse emb st' fs)"

section \<open>The stub API stage (ingest.py, part 1)\<close>

subsection \<open>What the script receives from outside\<close>

text \<open>
  A decoded JSON value, as \<open>r.json()\<close> returns it: \<open>None\<close>, a \<open>bool\<close>, an \<open>int\<close>, a \<open>float\<close>, a
  \<open>str\<close>, a \<open>list\<close> or a \<open>dict\<close>. A \<open>dict\<close> is given by its members in the order of the
  document; of a key that occurs twice the decoder keeps the last value.
\<close>

datatype 'f json =
  JNull | JBool bool | JInt int | JFloat 'f | JStr ustr
  | JArr "'f json list" | JObj "(ustr \<times> 'f json) list"

type_synonym 'f item = "ustr \<rightharpoonup> 'f json"

definition obj_map :: "(ustr \<times> 'f json) list \<Rightarrow> 'f item" where
  "obj_map kvs = map_of (rev kvs)"

text \<open>
  An element tree, as \<open>ET.fromstring\<close> returns it: of an element the script uses the tag,
  the text before the first child (which can be \<open>None\<close>) and the children.
\<close>

datatype xml = Element (xml_tag: ustr) (xml_text: "ustr option") (xml_children: "xml list")

text \<open>
  The outcome of \<open>requests.get\<close>: the call raises (no connection, a timeout, ...), or
  it returns a response, of which the script uses the status code, the
  \<open>Content-Type\<close> header, the text of the body and the body decoded as JSON (\<open>None\<close> when
  \<open>r.json()\<close> raises).
\<close>

datatype 'f http_outcome =
  Failed
  | Response (resp_status: nat) (resp_content_type: "ustr option") (resp_text: ustr)
      (resp_json: "'f json option")

text \<open>\<open>fetch_budget\<close> puts its argument into the URL as \<open>str\<close> prints it; a \<open>bool\<close> is an \<open>int\<close>
  for \<open>isinstance\<close>, so both kinds of argument occur.\<close>

datatype call_id = IdInt int | IdBool bool

text \<open>
  The environment of one run: the date of the run, the two remote endpoints, and the
  library functions whose results the script depends on. \<open>env_fromiso\<close> is
  \<open>datetime.fromisoformat(s).date()\<close> and \<open>env_xml\<close> is \<open>ET.fromstring\<close>, \<open>None\<close> standing for
  an exception. The last three fields are Python's floats, whose type is \<open>'f\<close>:
  \<open>float(s)\<close> for a text (\<open>None\<close> for \<open>ValueError\<close>), the float that \<open>float(str(n))\<close> gives for
  an \<open>int\<close>, and the test \<open>x == 0\<close>.
\<close>

record 'f env =
  env_today :: date
  env_stub :: "'f http_outcome"
  env_detail :: "call_id \<Rightarrow> 'f http_outcome"
  env_xml :: "ustr \<Rightarrow> xml option"
  env_fromiso :: "ustr \<Rightarrow> date option"
  env_float :: "ustr \<Rightarrow> 'f option"
  env_float_of_int :: "int \<Rightarrow> 'f"
  env_is_zero :: "'f \<Rightarrow> bool"

subsection \<open>Helpers\<close>

text \<open>\<open>Response.raise_for_status\<close> raises for the client and server error codes.\<close>

definition http_error :: "nat \<Rightarrow> bool" where
  "http_error s \<longleftrightarrow> 400 \<le> s \<and> s < 600"

text \<open>\<open>sub in s\<close> for texts.\<close>

fun starts_with :: "ustr \<Rightarrow> ustr \<Rightarrow> bool" where
  "starts_with [] s \<longleftrightarrow> True"
| "starts_with (p # ps) [] \<longleftrightarrow> False"
| "starts_with (p # ps) (c # cs) \<longleftrightarrow> p = c \<and> starts_with ps cs"

fun py_in :: "ustr \<Rightarrow> ustr \<Rightarrow> bool" where
  "py_in sub [] \<longleftrightarrow> sub = []"
| "py_in sub (c # cs) \<longleftrightarrow> starts_with sub (c # cs) \<or> py_in sub cs"

text \<open>The truth value of a JSON value, and \<open>a or b\<close>.\<close>

definition truthy :: "'f env \<Rightarrow> 'f json \<Rightarrow> bool" where
  "truthy E v =
     (case v of
        JNull \<Rightarrow> False
      | JBool b \<Rightarrow> b
      | JInt n \<Rightarrow> n \<noteq> 0
      | JFloat f \<Rightarrow> \<not> env_is_zero E f
      | JStr s \<Rightarrow> s \<noteq> []
      | JArr xs \<Rightarrow> xs \<noteq> []
      | JObj kvs \<Rightarrow> kvs \<noteq> [])"

definition py_or :: "'f env \<Rightarrow> 'f json \<Rightarrow> 'f json \<Rightarrow> 'f json" where
  "py_or E a b = (if truthy E a then a else b)"

text \<open>\<open>it.get(k)\<close>, which is \<open>None\<close> for a missing key.\<close>

definition field :: "'f item \<Rightarrow> string \<Rightarrow> 'f json" where
  "field it k = (case it (ascii k) of None \<Rightarrow> JNull | Some v \<Rightarrow> v)"

text \<open>\<open>v.strip()\<close>: only a \<open>str\<close> has the method.\<close>

definition strip_of :: "'f json \<Rightarrow> error + ustr" where
  "strip_of v = (case v of JStr s \<Rightarrow> Inr (py_strip s) | _ \<Rightarrow> Inl AttributeError)"

text \<open>\<open>iso_to_date\<close> (lines 33-37): \<open>fromisoformat\<close> raises \<open>TypeError\<close> for an argument that
  is not a \<open>str\<close> and \<open>ValueError\<close> for a text it cannot read; both are caught.\<close>

definition iso_to_date :: "'f env \<Rightarrow> 'f json \<Rightarrow> date option" where
  "iso_to_date E v = (case v of JStr s \<Rightarrow> env_fromiso E s | _ \<Rightarrow> None)"

text \<open>\<open>.replace(" ", "").replace(",", "")\<close>, applied to a budget text before \<open>float\<close>.\<close>

definition budget_clean :: "ustr \<Rightarrow> ustr" where
  "budget_clean s = py_replace1 44 [] (py_replace1 32 [] s)"

subsection \<open>\<open>fetch_budget\<close> (lines 39-55)\<close>

text \<open>\<open>root.find(".//Budget")\<close>: the first element below the root, in document order,
  whose tag is \<open>Budget\<close>.\<close>

fun descendants :: "xml \<Rightarrow> xml list" where
  "descendants (Element t x cs) = concat (map (\<lambda>c. c # descendants c) cs)"

definition find_budget :: "xml \<Rightarrow> xml option" where
  "find_budget root =
     (case filter (\<lambda>e. xml_tag e = ascii ''Budget'') (descendants root) of
        [] \<Rightarrow> None
      | e # es \<Rightarrow> Some e)"

text \<open>Every exception inside the function is caught and the function returns \<open>None\<close>.\<close>

definition fetch_budget :: "'f env \<Rightarrow> call_id \<Rightarrow> 'f option" where
  "fetch_budget E cid =
     (case env_detail E cid of
        Failed \<Rightarrow> None
      | Response s ct body js \<Rightarrow>
          if http_error s then None
          else (case env_xml E body of
                  None \<Rightarrow> None
                | Some root \<Rightarrow>
                    (case find_budget root of
                       None \<Rightarrow> None
                     | Some node \<Rightarrow>
                         (case xml_text node of
                            None \<Rightarrow> None
                          | Some t \<Rightarrow>
                              if t = [] then None
                              else env_float E (budget_clean (py_strip t))))))"

subsection \<open>\<open>scrape_api\<close> (lines 66-116)\<close>

text \<open>
  Lines 92-98, the \<open>Budget\<close> field of the item. The field is passed over when it is
  missing or equal to \<open>None\<close>, \<open>""\<close> or \<open>0\<close> (\<open>0.0\<close> and \<open>False\<close> are equal to \<open>0\<close>). Otherwise
  \<open>float(str(v).replace(" ", "").replace(",", ""))\<close> is tried, and any exception gives
  \<open>None\<close>: for a text this is \<open>float\<close> of the cleaned text; for an \<open>int\<close> and a \<open>float\<close>, what
  \<open>str\<close> prints has neither blank nor comma and reads back as the number; what \<open>str\<close>
  prints for \<open>True\<close>, a \<open>list\<close> or a \<open>dict\<close> is no number.
\<close>

definition stub_budget :: "'f env \<Rightarrow> 'f item \<Rightarrow> 'f option" where
  "stub_budget E it =
     (case it (ascii ''Budget'') of
        None \<Rightarrow> None
      | Some v \<Rightarrow>
          (case v of
             JNull \<Rightarrow> None
           | JBool b \<Rightarrow> None
           | JInt n \<Rightarrow> if n = 0 then None else Some (env_float_of_int E n)
           | JFloat f \<Rightarrow> if env_is_zero E f then None else Some f
           | JStr s \<Rightarrow> if s = [] then None else env_float E (budget_clean s)
           | JArr xs \<Rightarrow> None
           | JObj kvs \<Rightarrow> None))"

text \<open>Lines 100-104: without a budget from the stub, the detail endpoint is asked when
  \<open>Id\<close> is an \<open>int\<close>.\<close>

definition item_budget :: "'f env \<Rightarrow> 'f item \<Rightarrow> 'f option" where
  "item_budget E it =
     (case stub_budget E it of
        Some b \<Rightarrow> Some b
      | None \<Rightarrow>
          (case field it ''Id'' of
             JInt n \<Rightarrow> fetch_budget E (IdInt n)
           | JBool b \<Rightarrow> fetch_budget E (IdBool b)
           | _ \<Rightarrow> None))"

text \<open>
  Lines 82-112, one turn of the loop for an item that is a \<open>dict\<close>: the result is an
  exception, \<open>None\<close> when the item is passed over (\<open>continue\<close>), or the row appended.
\<close>

definition scrape_item :: "'f env \<Rightarrow> 'f item \<Rightarrow> error + 'f fresh_row option" where
  "scrape_item E it =
     (case strip_of (py_or E (field it ''Code'') (py_or E (field it ''callCode'') (JStr []))) of
        Inl e \<Rightarrow> Inl e
      | Inr raw \<Rightarrow>
          if raw = [] then Inr None
          else (case iso_to_date E (py_or E (field it ''deadline_date'') (field it ''EndDate'')) of
                  None \<Rightarrow> Inr None
                | Some ddl \<Rightarrow>
                    if year ddl < year (env_today E) then Inr None
                    else (let b = item_budget E it
                          in case strip_of (py_or E (field it ''call_title'')
                                              (py_or E (field it ''Title'') (JStr []))) of
                               Inl e \<Rightarrow> Inl e
                             | Inr t \<Rightarrow>
                                 Inr (Some (fresh_row_of (env_today E) (normalize_code raw)
                                              t ddl b)))))"

text \<open>
  \<open>for it in r.json()\<close>: a \<open>list\<close> gives its elements, a \<open>dict\<close> its keys, a \<open>str\<close> its
  characters, and nothing else can be iterated. An element that is not a \<open>dict\<close> has
  no method \<open>get\<close>.
\<close>

definition json_items :: "'f json \<Rightarrow> error + 'f json list" where
  "json_items v =
     (case v of
        JArr xs \<Rightarrow> Inr xs
      | JObj kvs \<Rightarrow> Inr (map JStr (remdups (map fst kvs)))
      | JStr s \<Rightarrow> Inr (map (\<lambda>c. JStr [c]) s)
      | _ \<Rightarrow> Inl TypeError)"

fun scrape_rows :: "'f env \<Rightarrow> 'f json list \<Rightarrow> error + 'f fresh_row list" where
  "scrape_rows E [] = Inr []"
| "scrape_rows E (x # xs) =
     (case x of
        JObj kvs \<Rightarrow>
          (case scrape_item E (obj_map kvs) of
             Inl e \<Rightarrow> Inl e
           | Inr r \<Rightarrow>
               (case scrape_rows E xs of
                  Inl e \<Rightarrow> Inl e
                | Inr rows \<Rightarrow> Inr ((case r of None \<Rightarrow> [] | Some row \<Rightarrow> [row]) @ rows)))
      | _ \<Rightarrow> Inl AttributeError)"

text \<open>
  The function returns the rows and writes them to the file of fresh deadlines; the
  result is the pair of what it returns and what it has written. On the two early
  exits both are the empty list.
\<close>

definition scrape_api :: "'f env \<Rightarrow> error + 'f fresh_row list \<times> 'f fresh_row list" where
  "scrape_api E =
     (case env_stub E of
        Failed \<Rightarrow> Inr ([], [])
      | Response s ct body js \<Rightarrow>
          if http_error s then Inr ([], [])
          else if \<not> py_in (ascii ''application/json'') (case ct of None \<Rightarrow> [] | Some c \<Rightarrow> c)
          then Inr ([], [])
          else (case js of
                  None \<Rightarrow> Inl JSONDecodeError
                | Some v \<Rightarrow>
                    (case json_items v of
                       Inl e \<Rightarrow> Inl e
                     | Inr items \<Rightarrow>
                         (case scrape_rows E items of
                            Inl e \<Rightarrow> Inl e
                          | Inr rows \<Rightarrow> Inr (rows, rows)))))"

section \<open>The whole run\<close>

text \<open>
  The script runs the three parts in order; an exception in one ends the run. The
  result holds what the run writes: the fresh deadlines, the PDF deadlines, the index
  with its metadata, and the merged dataset.
\<close>

record ('f, 'v) artifacts =
  fresh_json :: "'f fresh_row list"
  pdf_json :: "pdf_row list"
  index_file :: "'v list"
  meta_file :: "meta_entry list"
  merged_json :: "'f merged_row list"

definition ingest ::
  "'f env \<Rightarrow> unidata \<Rightarrow> (ustr \<Rightarrow> date option) \<Rightarrow> (ustr \<Rightarrow> 'v) \<Rightarrow> pdf_file list
     \<Rightarrow> error + ('f, 'v) artifacts" where
  "ingest E U parse emb files =
     (case scrape_api E of
        Inl e \<Rightarrow> Inl e
      | Inr (fresh_rows, written) \<Rightarrow>
          (case pdf_loop U parse emb ([], [], []) files of
             Inl e \<Rightarrow> Inl e
           | Inr (pdf_rows, idx, meta) \<Rightarrow>
               (case merge (env_today E) pdf_rows fresh_rows of
                  Inl e \<Rightarrow> Inl e
                | Inr merged \<Rightarrow>
                    Inr \<lparr>fresh_json = written, pdf_json = pdf_rows, index_file = idx,
                         meta_file = meta, merged_json = merged\<rparr>)))"

section \<open>The discard rule in the words of the specification\<close>

text \<open>
  The specification says that an item is discarded when it lacks a code under both
  field names, lacks a deadline that parses as an ISO date under both field names, or
  the year of its deadline is before the current year. \<open>spec_discards\<close> is that rule,
  written from the specification and not from the code, to be compared with
  \<open>scrape_item\<close>: a field holds a code when it is a text that is not blank, it holds a
  deadline when it is a text that \<open>fromisoformat\<close> reads, and the deadline of the item is
  the first that the two fields give.
\<close>

definition spec_has_code :: "'f item \<Rightarrow> string \<Rightarrow> bool" where
  "spec_has_code it k =
     (case field it k of JStr s \<Rightarrow> py_strip s \<noteq> [] | _ \<Rightarrow> False)"

definition spec_deadline :: "'f env \<Rightarrow> 'f item \<Rightarrow> date option" where
  "spec_deadline E it =
     (case iso_to_date E (field it ''deadline_date'') of
        Some d \<Rightarrow> Some d
      | None \<Rightarrow> iso_to_date E (field it ''EndDate''))"

definition spec_discards :: "'f env \<Rightarrow> 'f item \<Rightarrow> bool" where
  "spec_discards E it \<longleftrightarrow>
     (\<not> spec_has_code it ''Code'' \<and> \<not> spec_has_code it ''callCode'')
     \<or> (case spec_deadline E it of
           None \<Rightarrow> True
         | Some d \<Rightarrow> year d < year (env_today E))"

section \<open>The miner in the words of the specification\<close>

text \<open>
  The specification (section 4.3) has the miner find every keyword match, inspect
  around each a window of the same size on both sides, search that window for the
  date-like substrings that the date pattern matches, and collect the dates they are
  read as. The three definitions below are written from these words and not from the
  code, to be compared with \<open>mine_dates\<close>: the window of a keyword match from \<open>ks\<close> to
  \<open>ke\<close> holds the characters of the text at the positions from \<open>ks - 300\<close> (from 0 when the
  match starts earlier than 300) up to, not including, \<open>ke + 300\<close> (up to the end when the
  text is shorter); \<open>spec_date_texts\<close> are the substrings of the windows that the date
  pattern matches, and \<open>spec_found\<close> the dates that the parser reads them as.
\<close>

definition spec_window :: "ustr \<Rightarrow> nat \<times> nat \<Rightarrow> ustr" where
  "spec_window txt km = map ((!) txt) [fst km - 300 ..< min (snd km + 300) (length txt)]"

definition spec_date_texts :: "unidata \<Rightarrow> ustr \<Rightarrow> ustr set" where
  "spec_date_texts U txt =
     {map ((!) (spec_window txt km)) [s ..< e] | km s e.
        km \<in> set (finditer KW_RE U txt) \<and> (s, e) \<in> set (finditer DATE_RE U (spec_window txt km))}"

definition spec_found :: "unidata \<Rightarrow> (ustr \<Rightarrow> date option) \<Rightarrow> ustr \<Rightarrow> date set" where
  "spec_found U parse txt = {d. \<exists>t \<in> spec_date_texts U txt. parse t = Some d}"

section \<open>An environment for examples\<close>

text \<open>
  A run on 20 January 2025 with nothing reachable; the ISO parser reads the one text
  2030-01-01, the float parser the one text 12500.00, and floats are modelled by
  integers. The examples below change single fields of it.
\<close>

definition offline :: "int env" where
  "offline =
     \<lparr>env_today = \<lparr>year = 2025, month = 1, day = 20\<rparr>,
      env_stub = Failed,
      env_detail = (\<lambda>c. Failed),
      env_xml = (\<lambda>s. None),
      env_fromiso = (\<lambda>s. if s = ascii ''2030-01-01''
                           then Some \<lparr>year = 2030, month = 1, day = 1\<rparr> else None),
      env_float = (\<lambda>s. if s = ascii ''12500.00'' then Some 12500 else None),
      env_float_of_int = (\<lambda>n. n),
      env_is_zero = (\<lambda>f. f = 0)\<rparr>"

section \<open>Reading back what \<open>strftime\<close> wrote\<close>

lemma digit_val_digit: "digit_val (digit n) = n mod 10" "is_digit (digit n)"
  by (simp_all add: digit_val_def digit_def is_digit_def)

lemma not_space_is_digit: "is_digit c \<Longrightarrow> \<not> py_isspace c"
  by (auto simp add: is_digit_def py_isspace_def)

lemma dec4:
  fixes y :: nat
  assumes "y < 10000"
  shows "1000 * (y div 1000 mod 10) + 100 * (y div 100 mod 10) + 10 * (y div 10 mod 10) + y mod 10 = y"
proof -
  define a where "a = y div 10"
  define b where "b = a div 10"
  define c where "c = b div 10"
  define y0 where "y0 = y mod 10"
  define a0 where "a0 = a mod 10"
  define b0 where "b0 = b mod 10"
  have 1: "y = 10 * a + y0" by (simp add: a_def y0_def)
  have 2: "a = 10 * b + a0" by (simp add: b_def a0_def)
  have 3: "b = 10 * c + b0" by (simp add: c_def b0_def)
  have yb: "y div 100 = b" by (simp add: a_def b_def div_mult2_eq)
  have yc: "y div 1000 = c" by (simp add: a_def b_def c_def div_mult2_eq)
  have "c < 10" using assms unfolding yc [symmetric] by simp
  then have c0: "c mod 10 = c" by simp
  have "1000 * c + 100 * b0 + 10 * a0 + y0 = y" using 1 2 3 by linarith
  then show ?thesis
    unfolding yb yc c0 a_def [symmetric] b0_def [symmetric] a0_def [symmetric] y0_def [symmetric] .
qed

lemma year_field_digits:
  "is_digit a \<Longrightarrow> is_digit b \<Longrightarrow> is_digit c \<Longrightarrow> is_digit d \<Longrightarrow>
   year_field [a, b, c, d]
     = Some (1000 * digit_val a + 100 * digit_val b + 10 * digit_val c + digit_val d)"
  by (simp add: year_field_def)

lemma year_field_rt:
  assumes "y \<le> 9999"
  shows "year_field [digit (y div 1000), digit (y div 100), digit (y div 10), digit y] = Some y"
proof -
  have "y < 10000" using assms by simp
  from dec4 [OF this] show ?thesis
    by (simp only: year_field_digits digit_val_digit)
qed

lemma month_names_eq:
  "month_names = [[74, 97, 110], [70, 101, 98], [77, 97, 114], [65, 112, 114], [77, 97, 121],
     [74, 117, 110], [74, 117, 108], [65, 117, 103], [83, 101, 112], [79, 99, 116],
     [78, 111, 118], [68, 101, 99]]"
  by (simp add: month_names_def ascii_def)

lemma month_cases:
  fixes m :: nat
  assumes "1 \<le> m" "m \<le> 12"
  shows "m = 1 \<or> m = 2 \<or> m = 3 \<or> m = 4 \<or> m = 5 \<or> m = 6 \<or> m = 7 \<or> m = 8 \<or> m = 9
     \<or> m = 10 \<or> m = 11 \<or> m = 12"
  using assms by arith

lemma month_field_rt:
  assumes "1 \<le> m" "m \<le> 12"
  shows "month_field (month_names ! (m - 1) @ r) = Some (m, r)"
  using month_cases [OF assms]
  by (elim disjE) (simp_all add: month_names_eq month_field_def ascii_lower_def)

lemma ws1_month:
  assumes "1 \<le> m" "m \<le> 12"
  shows "ws1 (32 # month_names ! (m - 1) @ r) = Some (month_names ! (m - 1) @ r)"
  using month_cases [OF assms]
  by (elim disjE) (simp_all add: month_names_eq ws1_def py_isspace_def)

lemma ws1_digit: "ws1 (32 # digit n # r) = Some (digit n # r)"
  using not_space_is_digit [OF digit_val_digit(2), of n]
  by (simp add: ws1_def py_isspace_def)


lemma day_field_digits:
  "is_digit c1 \<Longrightarrow> is_digit c2 \<Longrightarrow> 1 \<le> 10 * digit_val c1 + digit_val c2
   \<Longrightarrow> 10 * digit_val c1 + digit_val c2 \<le> 31 \<Longrightarrow>
   day_field (c1 # c2 # r) = Some (10 * digit_val c1 + digit_val c2, r)"
  unfolding day_field_def Let_def by (simp only: list.case if_True simp_thms)

lemma day_field_rt:
  assumes "1 \<le> dd" "dd \<le> 31"
  shows "day_field (digit (dd div 10) # digit dd # r) = Some (dd, r)"
proof -
  have "dd div 10 < 10" using assms by simp
  then have e: "10 * (dd div 10 mod 10) + dd mod 10 = dd" by simp
  have "day_field (digit (dd div 10) # digit dd # r)
      = Some (10 * digit_val (digit (dd div 10)) + digit_val (digit dd), r)"
    by (rule day_field_digits) (simp_all only: digit_val_digit e assms)
  then show ?thesis by (simp only: digit_val_digit e)
qed

lemma days_in_month_le: "days_in_month y m \<le> 31"
  by (simp add: days_in_month_def)

lemma to_d_strftime:
  assumes "printable d"
  shows "to_d (strftime_dbY d) = Inr d"
proof -
  have m: "1 \<le> month d" "month d \<le> 12" and y: "1 \<le> year d" "year d \<le> 9999"
    and dd: "1 \<le> day d" "day d \<le> days_in_month (year d) (month d)"
    using assms by (simp_all add: printable_def valid_date_def)
  have d31: "day d \<le> 31" using dd(2) days_in_month_le [of "year d" "month d"] by linarith
  let ?yr = "[digit (year d div 1000), digit (year d div 100), digit (year d div 10), digit (year d)]"
  have s: "strftime_dbY d
      = digit (day d div 10) # digit (day d) # 32 # month_names ! (month d - 1) @ 32 # ?yr"
    by (simp add: strftime_dbY_def)
  have 1: "day_field (strftime_dbY d) = Some (day d, 32 # month_names ! (month d - 1) @ 32 # ?yr)"
    unfolding s by (rule day_field_rt [OF dd(1) d31])
  have 2: "ws1 (32 # month_names ! (month d - 1) @ 32 # ?yr)
      = Some (month_names ! (month d - 1) @ 32 # ?yr)"
    by (rule ws1_month [OF m])
  have 3: "month_field (month_names ! (month d - 1) @ 32 # ?yr) = Some (month d, 32 # ?yr)"
    by (rule month_field_rt [OF m])
  have 4: "ws1 (32 # ?yr) = Some ?yr"
    by (rule ws1_digit)
  have 5: "year_field ?yr = Some (year d)"
    by (rule year_field_rt [OF y(2)])
  have "strptime_dbY (strftime_dbY d) = Some d"
    by (simp only: strptime_dbY_def 1 2 3 4 5 option.case prod.case y(1) dd(2) simp_thms if_True)
      simp
  then show ?thesis by (simp add: to_d_def)
qed

section \<open>Properties of the merge engine\<close>

lemma map_of_dict_set: "map_of (dict_set k v kvs) = (map_of kvs)(k \<mapsto> v)"
  by (induction kvs) (auto simp add: fun_eq_iff)

lemma keys_dict_set: "fst ` set (dict_set k v kvs) = insert k (fst ` set kvs)"
  by (induction k v kvs rule: dict_set.induct) (force split: if_splits)+

lemma distinct_dict_set: "distinct (map fst kvs) \<Longrightarrow> distinct (map fst (dict_set k v kvs))"
  by (induction kvs) (auto simp add: keys_dict_set)

lemma vals_dict_set: "snd ` set (dict_set k v kvs) \<subseteq> insert v (snd ` set kvs)"
  by (induction k v kvs rule: dict_set.induct) (force split: if_splits)+

lemma seed_pdf_fold:
  assumes "\<forall>(c, d) \<in> set pds. printable d"
  shows "seed_pdf (pdf_rows_of pds) latest
           = Inr (foldl (\<lambda>l (c, d). dict_set c d l) latest pds)"
  using assms
proof (induction pds arbitrary: latest)
  case Nil
  show ?case by (simp add: pdf_rows_of_def)
next
  case (Cons p pds)
  obtain c d where p: "p = (c, d)" by (cases p)
  have "printable d" using Cons.prems p by simp
  then have "to_d (strftime_dbY d) = Inr d" by (rule to_d_strftime)
  moreover have "seed_pdf (pdf_rows_of pds) (dict_set c d latest)
      = Inr (foldl (\<lambda>l (c, d). dict_set c d l) (dict_set c d latest) pds)"
    using Cons.prems by (intro Cons.IH) simp
  ultimately show ?case
    using p by (simp add: pdf_rows_of_def pdf_row_of_def)
qed

lemma overlay_api_fold:
  assumes "\<forall>(c, t, d, b) \<in> set fds. printable d"
  shows "overlay_api (fresh_rows_of today fds) st
           = Inr (foldl (\<lambda>s (c, t, d, b). api_step c d b s) st fds)"
  using assms
proof (induction fds arbitrary: st)
  case Nil
  show ?case by (simp add: fresh_rows_of_def)
next
  case (Cons p fds)
  obtain c t d b where p: "p = (c, t, d, b)" by (cases p)
  have "printable d" using Cons.prems p by simp
  then have "to_d (strftime_dbY d) = Inr d" by (rule to_d_strftime)
  moreover have "overlay_api (fresh_rows_of today fds) (api_step c d b st)
      = Inr (foldl (\<lambda>s (c, t, d, b). api_step c d b s) (api_step c d b st) fds)"
    using Cons.prems by (intro Cons.IH) simp
  ultimately show ?case
    using p by (simp add: fresh_rows_of_def fresh_row_of_def)
qed

lemma seed_lookup:
  "map_of (foldl (\<lambda>l (c, d). dict_set c d l) latest pds) c
     = (case map_of (rev pds) c of Some d \<Rightarrow> Some d | None \<Rightarrow> map_of latest c)"
proof (induction pds arbitrary: latest)
  case Nil
  show ?case by simp
next
  case (Cons p pds)
  obtain c' d' where p: "p = (c', d')" by (cases p)
  show ?case
    by (simp add: Cons.IH p map_of_dict_set map_add_def split: option.split)
qed

lemma seed_keys:
  "fst ` set (foldl (\<lambda>l (c, d). dict_set c d l) latest pds) = fst ` set latest \<union> fst ` set pds"
proof (induction pds arbitrary: latest)
  case Nil
  show ?case by simp
next
  case (Cons p pds)
  obtain c d where p: "p = (c, d)" by (cases p)
  show ?case by (simp add: p Cons.IH keys_dict_set)
qed

lemma seed_distinct:
  "distinct (map fst latest) \<Longrightarrow> distinct (map fst (foldl (\<lambda>l (c, d). dict_set c d l) latest pds))"
  by (induction pds arbitrary: latest) (auto simp add: distinct_dict_set split: prod.splits)

lemma seed_vals:
  "snd ` set (foldl (\<lambda>l (c, d). dict_set c d l) latest pds) \<subseteq> snd ` set latest \<union> snd ` set pds"
proof (induction pds arbitrary: latest)
  case Nil
  show ?case by simp
next
  case (Cons p pds)
  obtain c d where p: "p = (c, d)" by (cases p)
  show ?case using Cons.IH [of "dict_set c d latest"] vals_dict_set [of c d latest]
    by (auto simp add: p)
qed

lemma api_step_lookup:
  "map_of (fst (api_step c' d b st)) c
     = (if c' = c then (case map_of (fst st) c of None \<Rightarrow> Some d
                         | Some x \<Rightarrow> if ymd x < ymd d then Some d else Some x)
        else map_of (fst st) c)"
  by (simp add: api_step_def Let_def map_of_dict_set split: option.split)

lemma api_step_keys: "fst ` set (fst (api_step c d b st)) = insert c (fst ` set (fst st))"
proof (cases "map_of (fst st) c")
  case None
  then show ?thesis by (simp add: api_step_def Let_def keys_dict_set)
next
  case (Some x)
  then have "c \<in> fst ` set (fst st)" by (metis map_of_eq_None_iff option.distinct(1))
  then show ?thesis using Some by (auto simp add: api_step_def Let_def keys_dict_set)
qed

lemma api_step_distinct:
  "distinct (map fst (fst st)) \<Longrightarrow> distinct (map fst (fst (api_step c d b st)))"
  by (simp add: api_step_def Let_def distinct_dict_set split: option.split)

lemma api_step_vals: "snd ` set (fst (api_step c d b st)) \<subseteq> insert d (snd ` set (fst st))"
  using vals_dict_set [of c d "fst st"]
  by (auto simp add: api_step_def Let_def split: option.split)

lemma overlay_lookup:
  "map_of (fst (foldl (\<lambda>s (c, t, d, b). api_step c d b s) st fds)) c
     = later_wins (map_of (fst st) c) (api_deadlines c fds)"
proof (induction fds arbitrary: st)
  case Nil
  show ?case by (simp add: later_wins_def api_deadlines_def)
next
  case (Cons p fds)
  obtain c' t d b where p: "p = (c', t, d, b)" by (cases p)
  show ?case
    using Cons.IH [of "api_step c' d b st"]
    by (simp add: p api_step_lookup later_wins_def api_deadlines_def)
qed

lemma overlay_keys:
  "fst ` set (fst (foldl (\<lambda>s (c, t, d, b). api_step c d b s) st fds))
     = fst ` set (fst st) \<union> api_codes fds"
proof (induction fds arbitrary: st)
  case Nil
  show ?case by (simp add: api_codes_def)
next
  case (Cons p fds)
  obtain c' t d b where p: "p = (c', t, d, b)" by (cases p)
  show ?case
    using Cons.IH [of "api_step c' d b st"]
    by (simp add: p api_step_keys api_codes_def)
qed

lemma overlay_distinct:
  "distinct (map fst (fst st))
   \<Longrightarrow> distinct (map fst (fst (foldl (\<lambda>s (c, t, d, b). api_step c d b s) st fds)))"
proof (induction fds arbitrary: st)
  case Nil
  then show ?case by simp
next
  case (Cons p fds)
  obtain c' t d b where p: "p = (c', t, d, b)" by (cases p)
  show ?case
    using Cons.IH [of "api_step c' d b st"] api_step_distinct [OF Cons.prems]
    by (simp add: p)
qed

lemma overlay_vals:
  "snd ` set (fst (foldl (\<lambda>s (c, t, d, b). api_step c d b s) st fds))
     \<subseteq> snd ` set (fst st) \<union> set (map (\<lambda>(c, t, d, b). d) fds)"
proof (induction fds arbitrary: st)
  case Nil
  show ?case by simp
next
  case (Cons p fds)
  obtain c' t d b where p: "p = (c', t, d, b)" by (cases p)
  show ?case
    using Cons.IH [of "api_step c' d b st"] api_step_vals [of c' d b st]
    by (auto simp add: p)
qed

lemma sort_keys_build:
  assumes "\<forall>(c, d) \<in> set latest. printable d"
  shows "sort_keys (build_merged today latest budgets)
     = Inr (map (\<lambda>(c, d). (ymd d, \<lparr>code = c, deadline = strftime_dbY d,
                  status = status_of today d, budget = budgets c\<rparr>)) latest)"
  using assms
proof (induction latest)
  case Nil
  show ?case by (simp add: build_merged_def)
next
  case (Cons p latest)
  obtain c d where p: "p = (c, d)" by (cases p)
  have "printable d" using Cons.prems p by simp
  then have "to_d (strftime_dbY d) = Inr d" by (rule to_d_strftime)
  moreover have "sort_keys (build_merged today latest budgets)
     = Inr (map (\<lambda>(c, d). (ymd d, \<lparr>code = c, deadline = strftime_dbY d,
                  status = status_of today d, budget = budgets c\<rparr>)) latest)"
    using Cons.prems by (intro Cons.IH) simp
  ultimately show ?case
    using p by (simp add: build_merged_def)
qed

lemma merge_char:
  fixes fds :: "(ustr \<times> ustr \<times> date \<times> 'f option) list"
  assumes pp: "\<forall>(c, d) \<in> set pds. printable d"
    and pf: "\<forall>(c, t, d, b) \<in> set fds. printable d"
  shows "\<exists>latest (budgets :: ustr \<rightharpoonup> 'f).
     merge today (pdf_rows_of pds) (fresh_rows_of today fds)
       = Inr (map snd (sort_key fst (map (\<lambda>(c, d). (ymd d, \<lparr>code = c, deadline = strftime_dbY d,
                  status = status_of today d, budget = budgets c\<rparr>)) latest)))
     \<and> distinct (map fst latest)
     \<and> fst ` set latest = fst ` set pds \<union> api_codes fds
     \<and> (\<forall>(c, d) \<in> set latest. printable d
            \<and> later_wins (pdf_seed c pds) (api_deadlines c fds) = Some d)"
proof -
  define l0 where "l0 = foldl (\<lambda>l (c, d). dict_set c d l) [] pds"
  define st :: "(ustr \<times> date) list \<times> (ustr \<rightharpoonup> 'f)"
    where "st = foldl (\<lambda>s (c, t, d, b). api_step c d b s) (l0, Map.empty) fds"
  have s1: "seed_pdf (pdf_rows_of pds) [] = Inr l0"
    unfolding l0_def by (rule seed_pdf_fold [OF pp])
  have s2: "overlay_api (fresh_rows_of today fds) (l0, Map.empty) = Inr st"
    unfolding st_def by (rule overlay_api_fold [OF pf])
  have v0: "snd ` set l0 \<subseteq> snd ` set pds"
    using seed_vals [of "[]" pds] by (simp add: l0_def)
  have v1: "snd ` set (fst st) \<subseteq> snd ` set pds \<union> set (map (\<lambda>(c, t, d, b). d) fds)"
    using overlay_vals [of "(l0, Map.empty)" fds] v0 by (auto simp add: st_def)
  have pr: "printable d" if "(c, d) \<in> set (fst st)" for c d
  proof -
    have "d \<in> snd ` set (fst st)" using that by force
    then have "d \<in> snd ` set pds \<or> d \<in> set (map (\<lambda>(c, t, d, b). d) fds)" using v1 by blast
    then show ?thesis using pp pf by auto
  qed
  have pr': "\<forall>(c, d) \<in> set (fst st). printable d" using pr by auto
  have s3: "sort_keys (build_merged today (fst st) (snd st))
     = Inr (map (\<lambda>(c, d). (ymd d, \<lparr>code = c, deadline = strftime_dbY d,
                  status = status_of today d, budget = snd st c\<rparr>)) (fst st))"
    by (rule sort_keys_build [OF pr'])
  have m: "merge today (pdf_rows_of pds) (fresh_rows_of today fds)
       = Inr (map snd (sort_key fst (map (\<lambda>(c, d). (ymd d, \<lparr>code = c, deadline = strftime_dbY d,
                  status = status_of today d, budget = snd st c\<rparr>)) (fst st))))"
    using s3 by (simp add: merge_def s1 s2 sort_by_deadline_def case_prod_unfold)
  have d: "distinct (map fst (fst st))"
    unfolding st_def l0_def by (intro overlay_distinct) (simp add: seed_distinct)
  have k: "fst ` set (fst st) = fst ` set pds \<union> api_codes fds"
    unfolding st_def by (simp add: overlay_keys l0_def seed_keys)
  have lw: "later_wins (pdf_seed c pds) (api_deadlines c fds) = Some d'"
    if "(c, d') \<in> set (fst st)" for c d'
  proof -
    have "map_of l0 c = pdf_seed c pds"
      by (simp add: l0_def seed_lookup pdf_seed_def split: option.split)
    then have "map_of (fst st) c = later_wins (pdf_seed c pds) (api_deadlines c fds)"
      by (simp add: st_def overlay_lookup)
    moreover have "map_of (fst st) c = Some d'" using that d by simp
    ultimately show ?thesis by simp
  qed
  show ?thesis
    using m d k pr lw by (intro exI [of _ "fst st"] exI [of _ "snd st"]) auto
qed

lemma insort_key_map:
  "insort_key f (g x) (map g xs) = map g (insort_key (\<lambda>a. f (g a)) x xs)"
  by (induction xs) simp_all

lemma sort_key_map: "sort_key f (map g xs) = map g (sort_key (\<lambda>a. f (g a)) xs)"
  by (induction xs) (simp_all add: insort_key_map)

text \<open>
  The merge applied to rows of the form that the two earlier stages write returns, and
  the deadline of every record is the one the override rule gives for its code: the
  deadline seeded from the PDF rows, replaced by an API deadline exactly when no
  deadline is recorded for the code yet or the API deadline is strictly later than the
  recorded one.
\<close>

lemma merge_override_rows:
  fixes fds :: "(ustr \<times> ustr \<times> date \<times> 'f option) list"
  assumes pp: "\<forall>(c, d) \<in> set pds. printable d"
    and pf: "\<forall>(c, t, d, b) \<in> set fds. printable d"
  shows "\<exists>merged. merge today (pdf_rows_of pds) (fresh_rows_of today fds) = Inr merged
     \<and> (\<forall>r \<in> set merged. \<exists>d. to_d (deadline r) = Inr d
            \<and> later_wins (pdf_seed (code r) pds) (api_deadlines (code r) fds) = Some d)
     \<and> (\<forall>c \<in> fst ` set pds \<union> api_codes fds. \<exists>r \<in> set merged. code r = c)"
proof -
  from merge_char [OF pp pf, of today]
  obtain latest and budgets :: "ustr \<rightharpoonup> 'f" where
    m: "merge today (pdf_rows_of pds) (fresh_rows_of today fds)
       = Inr (map snd (sort_key fst (map (\<lambda>(c, d). (ymd d, \<lparr>code = c, deadline = strftime_dbY d,
                  status = status_of today d, budget = budgets c\<rparr>)) latest)))"
    and k: "fst ` set latest = fst ` set pds \<union> api_codes fds"
    and l: "\<forall>(c, d) \<in> set latest. printable d
            \<and> later_wins (pdf_seed c pds) (api_deadlines c fds) = Some d"
    by blast
  let ?mk = "\<lambda>(c, d). (ymd d, \<lparr>code = c, deadline = strftime_dbY d,
                  status = status_of today d, budget = budgets c\<rparr>)"
  let ?merged = "map snd (sort_key fst (map ?mk latest))"
  have s: "set ?merged = (\<lambda>p. snd (?mk p)) ` set latest"
    by (simp add: image_image)
  have a: "\<exists>d. to_d (deadline r) = Inr d
            \<and> later_wins (pdf_seed (code r) pds) (api_deadlines (code r) fds) = Some d"
    if "r \<in> set ?merged" for r
  proof -
    from that s obtain c d where cd: "(c, d) \<in> set latest" and r: "r = snd (?mk (c, d))"
      by auto
    have "printable d" and "later_wins (pdf_seed c pds) (api_deadlines c fds) = Some d"
      using l cd by auto
    then show ?thesis using r by (simp add: to_d_strftime)
  qed
  have b: "\<exists>r \<in> set ?merged. code r = c" if "c \<in> fst ` set pds \<union> api_codes fds" for c
  proof -
    from that k obtain d where cd: "(c, d) \<in> set latest" by force
    then have "snd (?mk (c, d)) \<in> set ?merged" unfolding s by (rule imageI)
    moreover have "code (snd (?mk (c, d))) = c" by simp
    ultimately show ?thesis by (rule rev_bexI)
  qed
  show ?thesis using m a b by blast
qed

text \<open>
  The records come out in ascending order of their deadlines, one for every code of a
  PDF row or an API row.
\<close>

lemma merge_sorted_rows:
  fixes fds :: "(ustr \<times> ustr \<times> date \<times> 'f option) list"
  assumes pp: "\<forall>(c, d) \<in> set pds. printable d"
    and pf: "\<forall>(c, t, d, b) \<in> set fds. printable d"
  shows "\<exists>merged ds. merge today (pdf_rows_of pds) (fresh_rows_of today fds) = Inr merged
     \<and> map (\<lambda>r. to_d (deadline r)) merged = map Inr ds
     \<and> sorted (map ymd ds)
     \<and> distinct (map code merged)
     \<and> set (map code merged) = fst ` set pds \<union> api_codes fds"
proof -
  from merge_char [OF pp pf, of today]
  obtain latest and budgets :: "ustr \<rightharpoonup> 'f" where
    m: "merge today (pdf_rows_of pds) (fresh_rows_of today fds)
       = Inr (map snd (sort_key fst (map (\<lambda>(c, d). (ymd d, \<lparr>code = c, deadline = strftime_dbY d,
                  status = status_of today d, budget = budgets c\<rparr>)) latest)))"
    and dl: "distinct (map fst latest)"
    and k: "fst ` set latest = fst ` set pds \<union> api_codes fds"
    and l: "\<forall>(c, d) \<in> set latest. printable d
            \<and> later_wins (pdf_seed c pds) (api_deadlines c fds) = Some d"
    by blast
  let ?row = "\<lambda>c d. \<lparr>code = c, deadline = strftime_dbY d,
                  status = status_of today d, budget = budgets c\<rparr>"
  let ?ks = "sort_key (\<lambda>(c, d). ymd d) latest"
  have srt: "sort_key fst (map (\<lambda>(c, d). (ymd d, ?row c d)) latest)
      = map (\<lambda>(c, d). (ymd d, ?row c d)) ?ks"
    (is "?lhs = ?rhs")
  proof -
    have "(\<lambda>a. fst ((\<lambda>(c, d). (ymd d, ?row c d)) a)) = (\<lambda>(c, d). ymd d)"
      by (auto simp add: fun_eq_iff)
    then show ?thesis by (simp only: sort_key_map)
  qed
  let ?merged = "map (\<lambda>(c, d). ?row c d) ?ks"
  have m': "merge today (pdf_rows_of pds) (fresh_rows_of today fds) = Inr ?merged"
    unfolding m srt by (simp add: case_prod_unfold)
  have pk: "printable d" if "(c, d) \<in> set ?ks" for c d
    using that l by auto
  have 1: "map (\<lambda>r. to_d (deadline r)) ?merged = map Inr (map snd ?ks)"
    using pk by (auto simp add: to_d_strftime)
  have 2: "sorted (map ymd (map snd ?ks))"
    using sorted_sort_key [of "\<lambda>(c, d). ymd d" latest] by (simp add: case_prod_unfold comp_def)
  have c: "map code ?merged = map fst ?ks"
    by (auto simp add: case_prod_unfold)
  have 3: "distinct (map code ?merged)"
    unfolding c using dl by (simp add: distinct_map inj_on_def) 
  have 4: "set (map code ?merged) = fst ` set pds \<union> api_codes fds"
    unfolding c using k by simp
  show ?thesis using m' 1 2 3 4 by blast
qed

section \<open>Properties of the chunker and indexer\<close>

lemma aligned_snoc:
  assumes "aligned emb (idx, meta)"
  shows "aligned emb (idx @ [emb t], meta @ [\<lparr>meta_text = t, meta_source = n\<rparr>])"
proof -
  have l: "length idx = length meta"
    and n: "\<And>i. i < length meta \<Longrightarrow> idx ! i = emb (meta_text (meta ! i))"
    using assms by (simp_all add: aligned_def)
  have "(idx @ [emb t]) ! i = emb (meta_text ((meta @ [\<lparr>meta_text = t, meta_source = n\<rparr>]) ! i))"
    if "i < Suc (length meta)" for i
  proof (cases "i < length meta")
    case True
    then show ?thesis using l n by (simp add: nth_append)
  next
    case False
    then have "i = length meta" using that by simp
    then show ?thesis using l by (simp add: nth_append)
  qed
  then show ?thesis using l by (simp add: aligned_def)
qed

lemma aligned_step:
  assumes "aligned emb st"
  shows "aligned emb (chunk_step emb name txt C st i)"
proof (cases "py_strip (py_slice i (i + C) txt) = []")
  case True
  then show ?thesis using assms by (simp add: chunk_step_def)
next
  case False
  have "aligned emb (fst st, snd st)" using assms by simp
  from aligned_snoc [OF this] False show ?thesis
    by (simp add: chunk_step_def Let_def)
qed

lemma aligned_fold:
  "aligned emb st \<Longrightarrow> aligned emb (foldl (chunk_step emb name txt C) st js)"
  by (induction js arbitrary: st) (simp_all add: aligned_step)

lemma aligned_chunk_loop:
  assumes "aligned emb st" "chunk_loop emb name txt C st = Inr st'"
  shows "aligned emb st'"
proof -
  have "st' = foldl (chunk_step emb name txt C) st (range_from 0 (length txt) C)"
    using assms(2) by (simp add: chunk_loop_def split: if_splits)
  then show ?thesis using assms(1) by (simp add: aligned_fold)
qed

lemma aligned_pdf_step:
  assumes "aligned emb (snd st)" "pdf_step U parse emb st f = Inr st'"
  shows "aligned emb (snd st')"
proof -
  obtain ds where "mine_dates U parse (doc_text f) = Inr ds"
    using assms(2) by (cases "mine_dates U parse (doc_text f)") (simp_all add: pdf_step_def Let_def)
  moreover obtain im where im: "chunk_loop emb (pdf_name f) (doc_text f) CHUNK_SZ (snd st) = Inr im"
    using assms(2) calculation
    by (cases "chunk_loop emb (pdf_name f) (doc_text f) CHUNK_SZ (snd st)")
      (simp_all add: pdf_step_def Let_def)
  ultimately have "snd st' = im" using assms(2) by (auto simp add: pdf_step_def Let_def)
  then show ?thesis using aligned_chunk_loop [OF assms(1) im] by simp
qed

lemma aligned_pdf_loop:
  "aligned emb (snd st) \<Longrightarrow> pdf_loop U parse emb st fs = Inr st' \<Longrightarrow> aligned emb (snd st')"
proof (induction fs arbitrary: st)
  case Nil
  then show ?case by simp
next
  case (Cons f fs)
  from Cons.prems(2) obtain st1 where 1: "pdf_step U parse emb st f = Inr st1"
    and 2: "pdf_loop U parse emb st1 fs = Inr st'"
    by (simp split: sum.splits)
  have "aligned emb (snd st1)" by (rule aligned_pdf_step [OF Cons.prems(1) 1])
  then show ?case using 2 by (rule Cons.IH)
qed

lemma py_strip_empty_iff: "py_strip w = [] \<longleftrightarrow> (\<forall>c \<in> set w. py_isspace c)"
proof
  assume "py_strip w = []"
  then have e: "dropWhile py_isspace (rev (dropWhile py_isspace w)) = []"
    by (simp add: py_strip_def)
  show "\<forall>c \<in> set w. py_isspace c"
  proof (cases "dropWhile py_isspace w")
    case Nil
    then show ?thesis by (simp add: dropWhile_eq_Nil_conv)
  next
    case (Cons x xs)
    then have "\<not> py_isspace x" using hd_dropWhile [of py_isspace w] by simp
    moreover have "py_isspace x" using e Cons by (simp add: dropWhile_eq_Nil_conv)
    ultimately show ?thesis by simp
  qed
next
  assume "\<forall>c \<in> set w. py_isspace c"
  then have d: "dropWhile py_isspace w = []" by (simp add: dropWhile_eq_Nil_conv)
  show "py_strip w = []" unfolding py_strip_def d by simp
qed

lemma length_py_strip: "length (py_strip w) \<le> length w"
proof -
  have "length (py_strip w) \<le> length (dropWhile py_isspace w)"
    unfolding py_strip_def using length_dropWhile_le [of py_isspace "rev (dropWhile py_isspace w)"]
    by simp
  also have "\<dots> \<le> length w" by (rule length_dropWhile_le)
  finally show ?thesis .
qed

lemma chunk_fold_char:
  "foldl (chunk_step emb name txt C) st js
     = (fst st @ map emb (filter (\<lambda>t. t \<noteq> []) (map (\<lambda>i. py_strip (py_slice i (i + C) txt)) js)),
        snd st @ map (\<lambda>t. \<lparr>meta_text = t, meta_source = name\<rparr>)
                   (filter (\<lambda>t. t \<noteq> []) (map (\<lambda>i. py_strip (py_slice i (i + C) txt)) js)))"
proof (induction js arbitrary: st)
  case Nil
  show ?case by simp
next
  case (Cons j js)
  show ?case
  proof (cases "py_strip (py_slice j (j + C) txt) = []")
    case True
    then have "chunk_step emb name txt C st j = st" by (simp add: chunk_step_def)
    then show ?thesis using True by (simp add: Cons.IH)
  next
    case False
    then have "chunk_step emb name txt C st j
        = (fst st @ [emb (py_strip (py_slice j (j + C) txt))],
           snd st @ [\<lparr>meta_text = py_strip (py_slice j (j + C) txt), meta_source = name\<rparr>])"
      by (simp add: chunk_step_def Let_def)
    then show ?thesis using False by (simp add: Cons.IH)
  qed
qed

lemma chunk_loop_char:
  assumes "0 < C"
  shows "chunk_loop emb name txt C st
     = Inr (fst st @ map emb (filter (\<lambda>t. t \<noteq> []) (map py_strip (windows C txt))),
            snd st @ map (\<lambda>t. \<lparr>meta_text = t, meta_source = name\<rparr>)
                       (filter (\<lambda>t. t \<noteq> []) (map py_strip (windows C txt))))"
  using assms by (simp add: chunk_loop_def chunk_fold_char windows_def comp_def)

lemma range_from_length:
  assumes "0 < C"
  shows "length (range_from i L C) = (L - i + C - 1) div C"
  using assms
proof (induction i L C rule: range_from.induct)
  case (1 i stop step)
  show ?case
  proof (cases "stop \<le> i")
    case True
    then show ?thesis using "1.prems" by (simp add: range_from.simps)
  next
    case False
    then have ih: "length (range_from (i + step) stop step) = (stop - (i + step) + step - 1) div step"
      using "1.IH" "1.prems" by simp
    have r: "length (range_from i stop step) = Suc ((stop - (i + step) + step - 1) div step)"
      using False "1.prems" ih by (simp add: range_from.simps [of i])
    show ?thesis
    proof (cases "stop - i < step")
      case True
      then have a: "stop - (i + step) = 0" by simp
      have "step \<le> stop - i + step - 1" using False by simp
      moreover have "stop - i + step - 1 < 2 * step" using True by simp
      ultimately have "(stop - i + step - 1) div step = 1"
        using "1.prems" by (simp add: div_nat_eqI)
      then show ?thesis using r a "1.prems" by simp
    next
      case False
      define a where "a = stop - (i + step) + step - 1"
      have "stop - i + step - 1 = a + step" using False by (simp add: a_def)
      moreover have "(a + step) div step = Suc (a div step)"
        using "1.prems" div_add_self2 [of step a] by linarith
      ultimately have "(stop - i + step - 1) div step = Suc (a div step)" by simp
      then show ?thesis using r unfolding a_def by simp
    qed
  qed
qed

lemma range_from_concat:
  assumes "0 < C"
  shows "concat (map (\<lambda>j. py_slice j (j + C) txt) (range_from i (length txt) C)) = drop i txt"
  using assms
proof (induction i "length txt" C rule: range_from.induct)
  case (1 i step)
  show ?case
  proof (cases "length txt \<le> i")
    case True
    then show ?thesis by (simp add: range_from.simps)
  next
    case False
    then have "concat (map (\<lambda>j. py_slice j (j + step) txt) (range_from (i + step) (length txt) step))
        = drop (i + step) txt"
      using "1.hyps" "1.prems" by simp
    moreover have "take step (drop i txt) @ drop (i + step) txt = drop i txt"
      by (metis add.commute append_take_drop_id drop_drop)
    ultimately show ?thesis
      using False "1.prems" by (simp add: range_from.simps [of i] py_slice_def)
  qed
qed

lemma range_from_windows:
  assumes "0 < C"
  shows "\<forall>j \<in> set (range_from i L C). i \<le> j \<and> j < L"
  using assms
proof (induction i L C rule: range_from.induct)
  case (1 i stop step)
  show ?case
  proof (cases "stop \<le> i")
    case True
    then show ?thesis by (simp add: range_from.simps)
  next
    case False
    then have "\<forall>j \<in> set (range_from (i + step) stop step). i + step \<le> j \<and> j < stop"
      using "1.IH" "1.prems" by simp
    then show ?thesis using False "1.prems" by (auto simp add: range_from.simps [of i])
  qed
qed

lemma range_from_butlast:
  assumes "0 < C"
  shows "\<forall>j \<in> set (butlast (range_from i L C)). j + C < L"
  using assms
proof (induction i L C rule: range_from.induct)
  case (1 i stop step)
  show ?case
  proof (cases "stop \<le> i")
    case True
    then show ?thesis by (simp add: range_from.simps)
  next
    case False
    then have ih: "\<forall>j \<in> set (butlast (range_from (i + step) stop step)). j + step < stop"
      using "1.IH" "1.prems" by simp
    have e: "range_from i stop step = i # range_from (i + step) stop step"
      using False "1.prems" by (simp add: range_from.simps [of i])
    show ?thesis
    proof (cases "range_from (i + step) stop step = []")
      case True
      then show ?thesis by (simp add: e)
    next
      case False
      then have "i + step < stop" by (auto simp add: range_from.simps [of "i + step"] split: if_splits)
      then show ?thesis using ih False by (simp add: e)
    qed
  qed
qed

lemma windows_lengths:
  assumes "0 < C"
  shows "\<forall>w \<in> set (windows C txt). 0 < length w \<and> length w \<le> C"
  using range_from_windows [OF assms, of 0 "length txt"] assms
  by (auto simp add: windows_def py_slice_def)

lemma windows_butlast:
  assumes "0 < C"
  shows "\<forall>w \<in> set (butlast (windows C txt)). length w = C"
proof -
  have "butlast (windows C txt)
      = map (\<lambda>i. py_slice i (i + C) txt) (butlast (range_from 0 (length txt) C))"
    by (simp add: windows_def map_butlast)
  then show ?thesis
    using range_from_butlast [OF assms, of 0 "length txt"]
    by (auto simp add: py_slice_def)
qed

text \<open>
  Claim C4 (chunking postcondition). For a chunk size \<open>C > 0\<close>, the loop cuts a text of
  length \<open>L\<close> into consecutive windows that together are the text, each of \<open>C\<close> characters
  except possibly the last, which is shorter but not empty; there are \<open>ceil(L / C)\<close> of
  them. The loop appends one vector and one metadata record for every window that is
  not white space only, so their number is \<open>ceil(L / C)\<close> minus the number of such
  windows, and every text appended is non-empty and at most \<open>C\<close> characters long.
\<close>

theorem chunking_postcondition:
  assumes "0 < C"
  shows "\<exists>new. chunk_loop emb name txt C (idx, meta)
                 = Inr (idx @ map (\<lambda>m. emb (meta_text m)) new, meta @ new)
     \<and> concat (windows C txt) = txt
     \<and> length (windows C txt) = (length txt + C - 1) div C
     \<and> (\<forall>w \<in> set (butlast (windows C txt)). length w = C)
     \<and> (\<forall>w \<in> set (windows C txt). 0 < length w \<and> length w \<le> C)
     \<and> length new = (length txt + C - 1) div C
                      - length (filter (\<lambda>w. \<forall>c \<in> set w. py_isspace c) (windows C txt))
     \<and> (\<forall>m \<in> set new. meta_text m \<noteq> [] \<and> length (meta_text m) \<le> C \<and> meta_source m = name)"
proof -
  let ?ws = "windows C txt"
  let ?chunks = "filter (\<lambda>t. t \<noteq> []) (map py_strip ?ws)"
  let ?new = "map (\<lambda>t. \<lparr>meta_text = t, meta_source = name\<rparr>) ?chunks"
  have 1: "chunk_loop emb name txt C (idx, meta)
      = Inr (idx @ map (\<lambda>m. emb (meta_text m)) ?new, meta @ ?new)"
    using chunk_loop_char [OF assms, of emb name "txt" "(idx, meta)"] by (simp add: comp_def)
  have 2: "concat ?ws = txt"
    using range_from_concat [OF assms, of "txt" 0] by (simp add: windows_def)
  have 3: "length ?ws = (length txt + C - 1) div C"
    using range_from_length [OF assms, of 0 "length txt"] by (simp add: windows_def)
  have 4: "\<forall>w \<in> set (butlast ?ws). length w = C"
    by (rule windows_butlast [OF assms])
  have 5: "\<forall>w \<in> set ?ws. 0 < length w \<and> length w \<le> C"
    by (rule windows_lengths [OF assms])
  have "length ?chunks = length (filter (\<lambda>w. py_strip w \<noteq> []) ?ws)"
    by (simp add: filter_map comp_def)
  also have "\<dots> = length ?ws - length (filter (\<lambda>w. py_strip w = []) ?ws)"
    using sum_length_filter_compl [of "\<lambda>w. py_strip w = []" ?ws] by simp
  finally have 6: "length ?new = (length txt + C - 1) div C
      - length (filter (\<lambda>w. \<forall>c \<in> set w. py_isspace c) ?ws)"
    by (simp add: 3 py_strip_empty_iff)
  have 7: "meta_text m \<noteq> [] \<and> length (meta_text m) \<le> C \<and> meta_source m = name"
    if "m \<in> set ?new" for m
  proof -
    from that obtain w where w: "w \<in> set ?ws" and ne: "py_strip w \<noteq> []"
      and m: "m = \<lparr>meta_text = py_strip w, meta_source = name\<rparr>"
      by auto
    have "length (py_strip w) \<le> length w" by (rule length_py_strip)
    also have "\<dots> \<le> C" using 5 w by simp
    finally show ?thesis using ne m by simp
  qed
  show ?thesis
    using 1 2 3 4 5 6 7 by blast
qed

theorem chunking_postcondition_witness:
  "(0::nat) < 4
   \<and> (\<exists>new. chunk_loop (length :: ustr \<Rightarrow> nat) (ascii ''a.pdf'') (ascii ''ab      cd'') 4 ([], [])
                 = Inr (map (\<lambda>m. length (meta_text m)) new, new)
        \<and> concat (windows 4 (ascii ''ab      cd'')) = ascii ''ab      cd''
        \<and> length (windows 4 (ascii ''ab      cd'')) = 3
        \<and> length new = 2)"
proof -
  let ?t = "ascii ''ab      cd''"
  have c: "(0::nat) < 4" by simp
  have w: "windows 4 ?t = [ascii ''ab  '', ascii ''    '', ascii ''cd'']"
    by (simp add: windows_def range_from.simps py_slice_def ascii_def)
  have n: "(length ?t + 4 - 1) div 4
      - length (filter (\<lambda>w. \<forall>c \<in> set w. py_isspace c) (windows 4 ?t)) = 2"
    unfolding w by (simp add: ascii_def py_isspace_def)
  have l: "(length ?t + 4 - 1) div 4 = 3" by (simp add: ascii_def)
  from chunking_postcondition [OF c, of "length :: ustr \<Rightarrow> nat" "ascii ''a.pdf''" ?t "[]" "[]"]
  obtain new where
    1: "chunk_loop (length :: ustr \<Rightarrow> nat) (ascii ''a.pdf'') ?t 4 ([], [])
          = Inr ([] @ map (\<lambda>m. length (meta_text m)) new, [] @ new)"
    and 2: "concat (windows 4 ?t) = ?t"
    and 3: "length (windows 4 ?t) = (length ?t + 4 - 1) div 4"
    and 6: "length new = (length ?t + 4 - 1) div 4
              - length (filter (\<lambda>w. \<forall>c \<in> set w. py_isspace c) (windows 4 ?t))"
    by blast
  from 1 have a1: "chunk_loop (length :: ustr \<Rightarrow> nat) (ascii ''a.pdf'') ?t 4 ([], [])
          = Inr (map (\<lambda>m. length (meta_text m)) new, new)" by simp
  from 3 l have a3: "length (windows 4 ?t) = 3" by simp
  from 6 n have a6: "length new = 2" by simp
  from c a1 2 a3 a6 show ?thesis by blast
qed

text \<open>
  The metadata records that the loop over the PDF files appends for a file carry the
  name of that file and the non-empty stripped windows of its text.
\<close>

lemma pdf_step_meta:
  assumes "pdf_step U parse emb st f = Inr st'"
  shows "snd (snd st') = snd (snd st)
           @ map (\<lambda>t. \<lparr>meta_text = t, meta_source = pdf_name f\<rparr>)
               (filter (\<lambda>t. t \<noteq> []) (map py_strip (windows CHUNK_SZ (doc_text f))))"
proof -
  obtain ds where ds: "mine_dates U parse (doc_text f) = Inr ds"
    using assms by (cases "mine_dates U parse (doc_text f)") (simp_all add: pdf_step_def Let_def)
  have c: "0 < CHUNK_SZ" by (simp add: CHUNK_SZ_def)
  show ?thesis
    using assms ds by (auto simp add: pdf_step_def Let_def chunk_loop_char [OF c])
qed

lemma pdf_loop_meta:
  assumes "pdf_loop U parse emb st fs = Inr st'"
  shows "\<forall>m \<in> set (snd (snd st')). m \<in> set (snd (snd st))
           \<or> (\<exists>f \<in> set fs. meta_source m = pdf_name f \<and> meta_text m \<noteq> []
                 \<and> meta_text m \<in> py_strip ` set (windows CHUNK_SZ (doc_text f)))"
  using assms
proof (induction fs arbitrary: st)
  case Nil
  then show ?case by simp
next
  case (Cons f fs)
  from Cons.prems obtain st1 where 1: "pdf_step U parse emb st f = Inr st1"
    and 2: "pdf_loop U parse emb st1 fs = Inr st'"
    by (simp split: sum.splits)
  show ?case
  proof
    fix m assume "m \<in> set (snd (snd st'))"
    with Cons.IH [OF 2] consider "m \<in> set (snd (snd st1))"
      | "\<exists>f \<in> set fs. meta_source m = pdf_name f \<and> meta_text m \<noteq> []
                 \<and> meta_text m \<in> py_strip ` set (windows CHUNK_SZ (doc_text f))"
      by blast
    then show "m \<in> set (snd (snd st))
           \<or> (\<exists>g \<in> set (f # fs). meta_source m = pdf_name g \<and> meta_text m \<noteq> []
                 \<and> meta_text m \<in> py_strip ` set (windows CHUNK_SZ (doc_text g)))"
    proof cases
      case 1
      then show ?thesis unfolding pdf_step_meta [OF \<open>pdf_step U parse emb st f = Inr st1\<close>]
        by auto
    next
      case 2
      then show ?thesis by auto
    qed
  qed
qed

text \<open>
  Claim C3 (index and metadata stay parallel). With the embedding of utils.py, the
  empty index and metadata list are aligned; every turn of the chunking loop keeps them
  aligned, whether it appends or not; so does the loop over one document, and after the
  loop over all PDF files the index holds as many vectors as the metadata list has
  records, the vector at each position being the embedding of the text of the record at
  that position. The text of every record is a non-empty stripped window of the text
  of one of the files, and its source is the name of that file.
\<close>

theorem index_metadata_aligned:
  fixes encode :: "ustr \<Rightarrow> 'v" and unit_row :: "'v \<Rightarrow> 'v"
  defines "E \<equiv> embed_text encode unit_row"
  shows "aligned E ([], [])
     \<and> (aligned E st \<longrightarrow> aligned E (chunk_step E name txt C st i))
     \<and> (aligned E st \<and> chunk_loop E name txt C st = Inr st' \<longrightarrow> aligned E st')
     \<and> (pdf_loop U parse E ([], [], []) fs = Inr (rows, st'') \<longrightarrow>
          aligned E st''
          \<and> (\<forall>m \<in> set (snd st''). \<exists>f \<in> set fs. meta_source m = pdf_name f \<and> meta_text m \<noteq> []
                 \<and> meta_text m \<in> py_strip ` set (windows CHUNK_SZ (doc_text f))))"
proof -
  have 0: "aligned E ([], [])" by (simp add: aligned_def)
  have "aligned E (snd ([] :: pdf_row list, [] :: 'v list, [] :: meta_entry list))"
    using 0 by simp
  from aligned_pdf_loop [OF this, of U parse fs "(rows, st'')"]
  have 3: "pdf_loop U parse E ([], [], []) fs = Inr (rows, st'') \<longrightarrow> aligned E st''"
    by simp
  have 4: "pdf_loop U parse E ([], [], []) fs = Inr (rows, st'') \<longrightarrow>
      (\<forall>m \<in> set (snd st''). \<exists>f \<in> set fs. meta_source m = pdf_name f \<and> meta_text m \<noteq> []
                 \<and> meta_text m \<in> py_strip ` set (windows CHUNK_SZ (doc_text f)))"
    using pdf_loop_meta [of U parse E "([], [], [])" fs "(rows, st'')"] by simp
  show ?thesis
    using 0 3 4 aligned_step [of E st name "txt" C i] aligned_chunk_loop [of E st name "txt" C st']
    by blast
qed

lemma kw_none_ab: "finditer KW_RE ascii_db (ascii ''ab'') = []"
  by (simp add: finditer_def KW_RE_def kw_alternatives_def pat_def pat_lit_def ascii_def
      classify_def ascii_db_def ascii_lower_def is_digit_def m_end_def)

theorem index_metadata_aligned_witness:
  "aligned (embed_text (length :: ustr \<Rightarrow> nat) Suc) ([], [])
   \<and> aligned (embed_text (length :: ustr \<Rightarrow> nat) Suc)
       (chunk_step (embed_text length Suc) (ascii ''a.pdf'') (ascii ''ab      cd'') 4 ([], []) 0)
   \<and> (\<exists>rows st.
        pdf_loop ascii_db (\<lambda>s. None) (embed_text (length :: ustr \<Rightarrow> nat) Suc) ([], [], [])
          [\<lparr>pdf_name = ascii ''a.pdf'', pdf_stem = ascii ''a'',
            pdf_pages = [\<lparr>text_layer = ascii '' ab '', ocr_text = []\<rparr>]\<rparr>] = Inr (rows, st)
        \<and> st = ([3], [\<lparr>meta_text = ascii ''ab'', meta_source = ascii ''a.pdf''\<rparr>])
        \<and> aligned (embed_text length Suc) st)"
proof -
  let ?E = "embed_text (length :: ustr \<Rightarrow> nat) Suc"
  let ?f = "\<lparr>pdf_name = ascii ''a.pdf'', pdf_stem = ascii ''a'',
            pdf_pages = [\<lparr>text_layer = ascii '' ab '', ocr_text = []\<rparr>]\<rparr>"
  let ?st = "([3], [\<lparr>meta_text = ascii ''ab'', meta_source = ascii ''a.pdf''\<rparr>])"
  have t: "doc_text ?f = ascii ''ab''"
    by (simp add: doc_text_def page_text_def py_strip_def py_isspace_def ascii_def)
  have m: "mine_dates ascii_db (\<lambda>s. None) (ascii ''ab'') = Inr []"
    by (simp add: mine_dates_def date_strings_def kw_none_ab)
  have c: "chunk_loop ?E (ascii ''a.pdf'') (ascii ''ab'') CHUNK_SZ ([], []) = Inr ?st"
    by (simp add: chunk_loop_def CHUNK_SZ_def ascii_def range_from.simps chunk_step_def
        py_slice_def py_strip_def py_isspace_def embed_text_def)
  have r: "pdf_loop ascii_db (\<lambda>s. None) ?E ([], [], []) [?f] = Inr ([], ?st)"
    by (simp add: pdf_step_def t m c)
  from index_metadata_aligned [of length Suc "([], [])" "ascii ''a.pdf''" "ascii ''ab      cd''" 4 0
      "([], [])" ascii_db "\<lambda>s. None" "[?f]" "[]" ?st]
  show ?thesis using r by blast
qed

section \<open>Properties of the deadline miner\<close>

lemma ymd_inj: "ymd a = ymd b \<Longrightarrow> a = b"
  by (simp add: ymd_def)

lemma parse_dates_all:
  "\<forall>s \<in> set ss. parse s \<noteq> None \<Longrightarrow> parse_dates parse ss = Inr (map (\<lambda>s. the (parse s)) ss)"
  by (induction ss) auto

lemma parse_dates_fail:
  "\<exists>s \<in> set ss. parse s = None \<Longrightarrow> parse_dates parse ss = Inl AttributeError"
proof (induction ss)
  case Nil
  then show ?case by simp
next
  case (Cons s ss)
  show ?case
  proof (cases "parse s")
    case None
    then show ?thesis by simp
  next
    case (Some d)
    then have "\<exists>s \<in> set ss. parse s = None" using Cons.prems by auto
    then have "parse_dates parse ss = Inl AttributeError" by (rule Cons.IH)
    then show ?thesis using Some by simp
  qed
qed

lemma two_earliest:
  fixes ds :: "date list"
  defines "xs \<equiv> sort_key ymd (remdups ds)"
  shows "length (take 2 xs) = min 2 (card (set ds))"
    and "sorted_wrt (\<lambda>a b. ymd a < ymd b) (take 2 xs)"
    and "set (take 2 xs) \<subseteq> set ds"
    and "\<forall>d \<in> set ds - set (take 2 xs). \<forall>c \<in> set (take 2 xs). ymd c < ymd d"
proof -
  have dx: "distinct xs" and sx: "set xs = set ds" by (simp_all add: xs_def)
  have "inj_on ymd (set xs)" by (auto simp add: inj_on_def dest: ymd_inj)
  then have "distinct (map ymd xs)" using dx by (simp add: distinct_map)
  moreover have "sorted (map ymd xs)" by (simp add: xs_def)
  ultimately have "sorted_wrt (<) (map ymd xs)" by (simp add: strict_sorted_iff)
  then have st: "sorted_wrt (\<lambda>a b. ymd a < ymd b) xs" by (simp add: sorted_wrt_map)
  have "length xs = card (set ds)" using dx sx distinct_card [of xs] by simp
  then show "length (take 2 xs) = min 2 (card (set ds))" by (simp add: min.commute)
  show "sorted_wrt (\<lambda>a b. ymd a < ymd b) (take 2 xs)" using st by (rule sorted_wrt_take)
  show "set (take 2 xs) \<subseteq> set ds" using set_take_subset [of 2 xs] sx by simp
  have "sorted_wrt (\<lambda>a b. ymd a < ymd b) (take 2 xs @ drop 2 xs)" using st by simp
  then have ap: "\<forall>c \<in> set (take 2 xs). \<forall>d \<in> set (drop 2 xs). ymd c < ymd d"
    unfolding sorted_wrt_append by blast
  have "set ds = set (take 2 xs) \<union> set (drop 2 xs)"
    using sx set_append [of "take 2 xs" "drop 2 xs"] by simp
  then show "\<forall>d \<in> set ds - set (take 2 xs). \<forall>c \<in> set (take 2 xs). ymd c < ymd d"
    using ap by blast
qed

lemma classify_ascii:
  assumes "ascii_exact U" "c < 128"
  shows "classify U c = classify ascii_db c"
proof -
  have "c \<in> set [0..<128]" using assms(2) by simp
  then have "u_tolower U c = ascii_lower c \<and> u_isdecimal U c = is_digit c"
    using assms(1) unfolding ascii_exact_def by blast
  then show ?thesis by (simp add: classify_def ascii_db_def)
qed

lemma finditer_ascii:
  assumes "ascii_exact U" "\<forall>c \<in> set s. c < 128"
  shows "finditer m U s = finditer m ascii_db s"
proof -
  have "map (classify U) s = map (classify ascii_db) s"
    using assms by (intro map_cong) (simp_all add: classify_ascii)
  then show ?thesis unfolding finditer_def by (rule arg_cong)
qed

lemma set_py_slice: "set (py_slice i j s) \<subseteq> set s"
  unfolding py_slice_def using set_take_subset set_drop_subset by fast

lemma date_strings_ascii:
  assumes "ascii_exact U" "\<forall>c \<in> set s. c < 128"
  shows "date_strings U s = date_strings ascii_db s"
proof -
  have w: "finditer DATE_RE U (window s km) = finditer DATE_RE ascii_db (window s km)" for km
  proof (rule finditer_ascii [OF assms(1)])
    show "\<forall>c \<in> set (window s km). c < 128"
      using assms(2) set_py_slice [of "fst km - WIN" "snd km + WIN" s]
      by (auto simp add: window_def)
  qed
  show ?thesis
    by (simp add: date_strings_def finditer_ascii [OF assms] w)
qed

lemma ascii_lt_128: "\<forall>c \<in> set [68, 101, 97, 100, 108, 105, 110, 101, 58, 32, 49, 53, 32, 77, 97, 114,
    99, 104, 32, 50, 48, 50, 53 :: nat]. c < 128"
  by simp

lemmas eval_regex =
  finditer_def KW_RE_def DATE_RE_def kw_alternatives_def pat_def pat_lit_def ascii_def
  classify_def ascii_db_def ascii_lower_def is_digit_def m_end_def m_opt_def m_digit_def
  m_d12_def m_sep_def m_year_def m_month_def py_isspace_def

lemma ex_text: "ascii ''Deadline: 15 March 2025''
   = [68, 101, 97, 100, 108, 105, 110, 101, 58, 32, 49, 53, 32, 77, 97, 114, 99, 104, 32, 50, 48, 50, 53]"
  by (simp add: ascii_def)

lemma ex_kw: "finditer KW_RE ascii_db (ascii ''Deadline: 15 March 2025'') = [(0, 8)]"
  by (simp add: eval_regex)

lemma ex_window: "window (ascii ''Deadline: 15 March 2025'') (0, 8) = ascii ''Deadline: 15 March 2025''"
  by (simp add: window_def WIN_def py_slice_def ascii_def)

lemma ex_date: "finditer DATE_RE ascii_db (ascii ''Deadline: 15 March 2025'') = [(10, 23)]"
  by (simp add: eval_regex)

lemma ex_strings:
  "date_strings ascii_db (ascii ''Deadline: 15 March 2025'') = [ascii ''15 March 2025'']"
  by (simp add: date_strings_def ex_kw ex_window ex_date) (simp add: py_slice_def ascii_def)

lemma ascii_exact_ascii_db: "ascii_exact ascii_db"
  by (simp add: ascii_exact_def ascii_db_def)

text \<open>
  How \<open>finditer\<close> goes through a text: a slice by its positions; a position at which the
  pattern matches is the start of a match or lies inside an earlier one; the search
  passes a stretch that no match leaves; and the matches lie inside the text.
\<close>

lemma py_slice_nth: "py_slice i j s = map ((!) s) [i ..< min j (length s)]"
proof (rule nth_equalityI)
  show "length (py_slice i j s) = length (map ((!) s) [i ..< min j (length s)])"
    by (auto simp add: py_slice_def)
next
  fix k assume "k < length (py_slice i j s)"
  then have k: "k < j - i" "k < length s - i" by (simp_all add: py_slice_def)
  then have "i + k < min j (length s)" by (simp add: less_diff_conv add.commute)
  then have "[i ..< min j (length s)] ! k = i + k" by (rule nth_upt)
  moreover have "k < length [i ..< min j (length s)]" using k by simp
  ultimately show "py_slice i j s ! k = map ((!) s) [i ..< min j (length s)] ! k"
    using k by (simp add: py_slice_def)
qed

lemma scan_covers:
  assumes "m (drop p cs) = Some n" "0 < n" "p < length cs" "skip \<le> p"
  shows "\<exists>(s, e) \<in> set (scan m pos skip cs). s \<le> pos + p \<and> pos + p < e"
  using assms
proof (induction cs arbitrary: pos skip p)
  case Nil
  then show ?case by simp
next
  case (Cons c cs)
  show ?case
  proof (cases "0 < skip")
    case True
    then obtain p' where p: "p = Suc p'" using Cons.prems(4) by (cases p) simp_all
    have "\<exists>(s, e) \<in> set (scan m (pos + 1) (skip - 1) cs). s \<le> pos + 1 + p' \<and> pos + 1 + p' < e"
      using Cons.prems p True by (intro Cons.IH) simp_all
    then show ?thesis using True p by simp
  next
    case False
    show ?thesis
    proof (cases "m (c # cs)")
      case None
      then obtain p' where p: "p = Suc p'" using Cons.prems(1) by (cases p) simp_all
      have "\<exists>(s, e) \<in> set (scan m (pos + 1) 0 cs). s \<le> pos + 1 + p' \<and> pos + 1 + p' < e"
        using Cons.prems p by (intro Cons.IH) simp_all
      then show ?thesis using False None p by simp
    next
      case (Some n0)
      show ?thesis
      proof (cases "p < n0")
        case True
        then show ?thesis using False Some by simp
      next
        case nlt: False
        have "p \<noteq> 0" using nlt Cons.prems(1,2) Some by (cases p) simp_all
        then obtain p' where p: "p = Suc p'" by (cases p) simp_all
        have "\<exists>(s, e) \<in> set (scan m (pos + 1) (n0 - 1) cs). s \<le> pos + 1 + p' \<and> pos + 1 + p' < e"
          using Cons.prems p nlt by (intro Cons.IH) simp_all
        then show ?thesis using False Some p by simp
      qed
    qed
  qed
qed

lemma scan_split:
  assumes "\<forall>q < length xs. \<forall>n. m (drop q (xs @ ys)) = Some n \<longrightarrow> q + n \<le> length xs"
    and "skip \<le> length xs"
  shows "\<exists>front. scan m pos skip (xs @ ys) = front @ scan m (pos + length xs) 0 ys"
  using assms
proof (induction xs arbitrary: pos skip)
  case Nil
  then show ?case by simp
next
  case (Cons c xs)
  have h: "\<forall>q < length xs. \<forall>n. m (drop q (xs @ ys)) = Some n \<longrightarrow> q + n \<le> length xs"
  proof (intro allI impI)
    fix q n assume "q < length xs" "m (drop q (xs @ ys)) = Some n"
    then have "Suc q + n \<le> length (c # xs)"
      using Cons.prems(1) [rule_format, of "Suc q" n] by simp
    then show "q + n \<le> length xs" by simp
  qed
  show ?case
  proof (cases "0 < skip")
    case True
    from Cons.IH [OF h, of "skip - 1" "pos + 1"] Cons.prems(2) True
    show ?thesis by auto
  next
    case False
    show ?thesis
    proof (cases "m (c # xs @ ys)")
      case None
      from Cons.IH [OF h, of 0 "pos + 1"] False None show ?thesis by auto
    next
      case (Some n)
      then have "n \<le> length (c # xs)"
        using Cons.prems(1) [rule_format, of 0 n] by simp
      then have "n - 1 \<le> length xs" by simp
      from Cons.IH [OF h this, of "pos + 1"] obtain front where
        "scan m (pos + 1) (n - 1) (xs @ ys) = front @ scan m (pos + 1 + length xs) 0 ys"
        by blast
      then have "scan m pos skip ((c # xs) @ ys)
          = ((pos, pos + n) # front) @ scan m (pos + length (c # xs)) 0 ys"
        using False Some by simp
      then show ?thesis by blast
    qed
  qed
qed

lemma scan_bounds:
  assumes "\<And>cs n. m cs = Some n \<Longrightarrow> n \<le> length cs"
  shows "\<forall>(s, e) \<in> set (scan m pos skip cs). pos \<le> s \<and> s \<le> e \<and> e \<le> pos + length cs"
proof (induction cs arbitrary: pos skip)
  case Nil
  show ?case by simp
next
  case (Cons c cs)
  show ?case
  proof (cases "0 < skip")
    case True
    then show ?thesis using Cons.IH [of "pos + 1" "skip - 1"] by fastforce
  next
    case False
    show ?thesis
    proof (cases "m (c # cs)")
      case None
      then show ?thesis using False Cons.IH [of "pos + 1" 0] by fastforce
    next
      case (Some n)
      then have "n \<le> length (c # cs)" by (rule assms)
      then show ?thesis using False Some Cons.IH [of "pos + 1" "n - 1"] by fastforce
    qed
  qed
qed


text \<open>
  No match of the date pattern holds a colon: every character that it reads is a
  digit, a separator, white space or a letter of a month name.
\<close>

lemma m_alt_Some: "m_alt ms cs = Some n \<Longrightarrow> \<exists>m \<in> set ms. m cs = Some n"
  by (induction ms) (auto split: option.splits)

lemma m_opt_Some: "m_opt body k cs = Some n \<Longrightarrow> body k cs = Some n \<or> k cs = Some n"
  by (auto simp add: m_opt_def split: option.splits)

lemma m_digit_conf:
  assumes "\<And>cs n. k cs = Some n \<Longrightarrow> n \<le> length cs \<and> (58, 58, False) \<notin> set (take n cs)"
    and "m_digit k cs = Some n"
  shows "n \<le> length cs \<and> (58, 58, False) \<notin> set (take n cs)"
  using assms(2) assms(1)
  by (cases cs) (auto simp add: m_digit_def split: if_splits)

lemma m_sep_conf:
  assumes "\<And>cs n. k cs = Some n \<Longrightarrow> n \<le> length cs \<and> (58, 58, False) \<notin> set (take n cs)"
    and "m_sep k cs = Some n"
  shows "n \<le> length cs \<and> (58, 58, False) \<notin> set (take n cs)"
  using assms(2) assms(1)
  by (cases cs) (auto simp add: m_sep_def split: if_splits)

lemma m_ws_conf:
  assumes "\<And>cs n. k cs = Some n \<Longrightarrow> n \<le> length cs \<and> (58, 58, False) \<notin> set (take n cs)"
    and "m_ws k cs = Some n"
  shows "n \<le> length cs \<and> (58, 58, False) \<notin> set (take n cs)"
  using assms(2)
proof (induction cs arbitrary: n)
  case Nil
  then show ?case by simp
next
  case (Cons x cs)
  obtain c l d where x: "x = (c, l, d)" by (cases x)
  have sp: "py_isspace c" using Cons.prems x by (simp split: if_splits)
  then have ne: "x \<noteq> (58, 58, False)" using x by (auto simp add: py_isspace_def)
  show ?case
  proof (cases "m_ws k cs")
    case None
    then obtain n' where "k cs = Some n'" "n = Suc n'" using Cons.prems x sp by auto
    then show ?thesis using assms(1) [of cs n'] ne by auto
  next
    case (Some n')
    then have "n = Suc n'" using Cons.prems x sp by simp
    then show ?thesis using Cons.IH [OF Some] ne by auto
  qed
qed

lemma m_lits_conf:
  assumes "\<And>cs n. k cs = Some n \<Longrightarrow> n \<le> length cs \<and> (58, 58, False) \<notin> set (take n cs)"
    and "\<forall>p \<in> set ps. \<not> lit_ok p (58, 58, False)"
    and "m_lits ps k cs = Some n"
  shows "n \<le> length cs \<and> (58, 58, False) \<notin> set (take n cs)"
  using assms(2,3)
proof (induction ps arbitrary: cs n)
  case Nil
  then show ?case using assms(1) by simp
next
  case (Cons p ps)
  then obtain c cs' where cs: "cs = c # cs'" by (cases cs) simp_all
  have ok: "lit_ok p c" using Cons.prems(2) cs by (simp split: if_splits)
  then have ne: "c \<noteq> (58, 58, False)" using Cons.prems(1) by auto
  obtain n' where n': "m_lits ps k cs' = Some n'" "n = Suc n'"
    using Cons.prems(2) cs ok by auto
  have "n' \<le> length cs' \<and> (58, 58, False) \<notin> set (take n' cs')"
    using Cons.IH [OF _ n'(1)] Cons.prems(1) by simp
  then show ?case using cs n'(2) ne by auto
qed

lemma pat_no_colon: "\<forall>c \<in> set s. 97 \<le> c \<and> c \<le> 122 \<Longrightarrow> \<forall>p \<in> set (pat s). \<not> lit_ok p (58, 58, False)"
  by (auto simp add: pat_def pat_lit_def)

lemma m_word_conf:
  assumes k: "\<And>cs n. k cs = Some n \<Longrightarrow> n \<le> length cs \<and> (58, 58, False) \<notin> set (take n cs)"
    and a: "\<forall>c \<in> set s. 97 \<le> c \<and> c \<le> 122"
    and m: "m_lits (pat s) k cs = Some n"
  shows "n \<le> length cs \<and> (58, 58, False) \<notin> set (take n cs)"
proof -
  have "\<forall>p \<in> set (pat s). \<not> lit_ok p (58, 58, False)" using a by (rule pat_no_colon)
  with k show ?thesis using m by (rule m_lits_conf)
qed

lemma m_word_opt_conf:
  assumes k: "\<And>cs n. k cs = Some n \<Longrightarrow> n \<le> length cs \<and> (58, 58, False) \<notin> set (take n cs)"
    and a: "\<forall>c \<in> set s. 97 \<le> c \<and> c \<le> 122" and b: "\<forall>c \<in> set t. 97 \<le> c \<and> c \<le> 122"
    and m: "m_lits (pat s) (m_opt (m_lits (pat t)) k) cs = Some n"
  shows "n \<le> length cs \<and> (58, 58, False) \<notin> set (take n cs)"
proof -
  have 1: "n \<le> length cs \<and> (58, 58, False) \<notin> set (take n cs)"
    if "m_opt (m_lits (pat t)) k cs = Some n" for cs n
  proof -
    from m_opt_Some [OF that] show ?thesis
    proof
      assume "m_lits (pat t) k cs = Some n"
      with k b show ?thesis by (rule m_word_conf)
    next
      assume "k cs = Some n"
      then show ?thesis by (rule k)
    qed
  qed
  from 1 a m show ?thesis by (rule m_word_conf)
qed

lemma m_year_conf:
  assumes k: "\<And>cs n. k cs = Some n \<Longrightarrow> n \<le> length cs \<and> (58, 58, False) \<notin> set (take n cs)"
    and m: "m_year k cs = Some n"
  shows "n \<le> length cs \<and> (58, 58, False) \<notin> set (take n cs)"
proof -
  have 1: "n \<le> length cs \<and> (58, 58, False) \<notin> set (take n cs)"
    if "m_digit k cs = Some n" for cs n
    using k that by (rule m_digit_conf)
  have 2: "n \<le> length cs \<and> (58, 58, False) \<notin> set (take n cs)"
    if "m_digit (m_digit k) cs = Some n" for cs n
    using 1 that by (rule m_digit_conf)
  have 3: "\<forall>p \<in> set [Exact 50, Exact 48]. \<not> lit_ok p (58, 58, False)" by simp
  have 4: "m_lits [Exact 50, Exact 48] (m_digit (m_digit k)) cs = Some n"
    using m by (simp add: m_year_def)
  from 2 3 4 show ?thesis by (rule m_lits_conf)
qed

lemma m_d12_conf:
  assumes k: "\<And>cs n. k cs = Some n \<Longrightarrow> n \<le> length cs \<and> (58, 58, False) \<notin> set (take n cs)"
    and m: "m_d12 k cs = Some n"
  shows "n \<le> length cs \<and> (58, 58, False) \<notin> set (take n cs)"
proof -
  have 1: "n \<le> length cs \<and> (58, 58, False) \<notin> set (take n cs)"
    if "m_opt m_digit k cs = Some n" for cs n
  proof -
    from m_opt_Some [OF that] show ?thesis
    proof
      assume "m_digit k cs = Some n"
      with k show ?thesis by (rule m_digit_conf)
    next
      assume "k cs = Some n"
      then show ?thesis by (rule k)
    qed
  qed
  have 2: "m_digit (m_opt m_digit k) cs = Some n" using m by (simp add: m_d12_def)
  from 1 2 show ?thesis by (rule m_digit_conf)
qed

lemma ascii_letters:
  "\<forall>c \<in> set (ascii ''jan''). 97 \<le> c \<and> c \<le> 122" "\<forall>c \<in> set (ascii ''uary''). 97 \<le> c \<and> c \<le> 122"
  "\<forall>c \<in> set (ascii ''feb''). 97 \<le> c \<and> c \<le> 122" "\<forall>c \<in> set (ascii ''ruary''). 97 \<le> c \<and> c \<le> 122"
  "\<forall>c \<in> set (ascii ''mar''). 97 \<le> c \<and> c \<le> 122" "\<forall>c \<in> set (ascii ''ch''). 97 \<le> c \<and> c \<le> 122"
  "\<forall>c \<in> set (ascii ''apr''). 97 \<le> c \<and> c \<le> 122" "\<forall>c \<in> set (ascii ''il''). 97 \<le> c \<and> c \<le> 122"
  "\<forall>c \<in> set (ascii ''may''). 97 \<le> c \<and> c \<le> 122"
  "\<forall>c \<in> set (ascii ''jun''). 97 \<le> c \<and> c \<le> 122" "\<forall>c \<in> set (ascii ''e''). 97 \<le> c \<and> c \<le> 122"
  "\<forall>c \<in> set (ascii ''jul''). 97 \<le> c \<and> c \<le> 122" "\<forall>c \<in> set (ascii ''y''). 97 \<le> c \<and> c \<le> 122"
  "\<forall>c \<in> set (ascii ''aug''). 97 \<le> c \<and> c \<le> 122" "\<forall>c \<in> set (ascii ''ust''). 97 \<le> c \<and> c \<le> 122"
  "\<forall>c \<in> set (ascii ''sep''). 97 \<le> c \<and> c \<le> 122" "\<forall>c \<in> set (ascii ''t''). 97 \<le> c \<and> c \<le> 122"
  "\<forall>c \<in> set (ascii ''ember''). 97 \<le> c \<and> c \<le> 122"
  "\<forall>c \<in> set (ascii ''oct''). 97 \<le> c \<and> c \<le> 122" "\<forall>c \<in> set (ascii ''ober''). 97 \<le> c \<and> c \<le> 122"
  "\<forall>c \<in> set (ascii ''nov''). 97 \<le> c \<and> c \<le> 122" "\<forall>c \<in> set (ascii ''dec''). 97 \<le> c \<and> c \<le> 122"
  by (simp_all add: ascii_def)

lemma m_month_conf:
  assumes k: "\<And>cs n. k cs = Some n \<Longrightarrow> n \<le> length cs \<and> (58, 58, False) \<notin> set (take n cs)"
    and m: "m_month k cs = Some n"
  shows "n \<le> length cs \<and> (58, 58, False) \<notin> set (take n cs)"
proof -
  have sept: "n \<le> length cs \<and> (58, 58, False) \<notin> set (take n cs)"
    if "m_opt (\<lambda>k'. m_lits (pat (ascii ''t'')) (m_opt (m_lits (pat (ascii ''ember''))) k')) k cs
          = Some n" for cs n
  proof -
    from m_opt_Some [OF that] show ?thesis
    proof
      assume "m_lits (pat (ascii ''t'')) (m_opt (m_lits (pat (ascii ''ember''))) k) cs = Some n"
      with k ascii_letters(17) ascii_letters(18) show ?thesis by (rule m_word_opt_conf)
    next
      assume "k cs = Some n"
      then show ?thesis by (rule k)
    qed
  qed
  from m_alt_Some [OF m [unfolded m_month_def]] obtain mm where
    mm: "mm \<in> set
       [m_lits (pat (ascii ''jan'')) (m_opt (m_lits (pat (ascii ''uary''))) k),
        m_lits (pat (ascii ''feb'')) (m_opt (m_lits (pat (ascii ''ruary''))) k),
        m_lits (pat (ascii ''mar'')) (m_opt (m_lits (pat (ascii ''ch''))) k),
        m_lits (pat (ascii ''apr'')) (m_opt (m_lits (pat (ascii ''il''))) k),
        m_lits (pat (ascii ''may'')) k,
        m_lits (pat (ascii ''jun'')) (m_opt (m_lits (pat (ascii ''e''))) k),
        m_lits (pat (ascii ''jul'')) (m_opt (m_lits (pat (ascii ''y''))) k),
        m_lits (pat (ascii ''aug'')) (m_opt (m_lits (pat (ascii ''ust''))) k),
        m_lits (pat (ascii ''sep''))
          (m_opt (\<lambda>k'. m_lits (pat (ascii ''t'')) (m_opt (m_lits (pat (ascii ''ember''))) k')) k),
        m_lits (pat (ascii ''oct'')) (m_opt (m_lits (pat (ascii ''ober''))) k),
        m_lits (pat (ascii ''nov'')) (m_opt (m_lits (pat (ascii ''ember''))) k),
        m_lits (pat (ascii ''dec'')) (m_opt (m_lits (pat (ascii ''ember''))) k)]"
    and r: "mm cs = Some n"
    by blast
  from mm consider
      "mm = m_lits (pat (ascii ''jan'')) (m_opt (m_lits (pat (ascii ''uary''))) k)"
    | "mm = m_lits (pat (ascii ''feb'')) (m_opt (m_lits (pat (ascii ''ruary''))) k)"
    | "mm = m_lits (pat (ascii ''mar'')) (m_opt (m_lits (pat (ascii ''ch''))) k)"
    | "mm = m_lits (pat (ascii ''apr'')) (m_opt (m_lits (pat (ascii ''il''))) k)"
    | "mm = m_lits (pat (ascii ''may'')) k"
    | "mm = m_lits (pat (ascii ''jun'')) (m_opt (m_lits (pat (ascii ''e''))) k)"
    | "mm = m_lits (pat (ascii ''jul'')) (m_opt (m_lits (pat (ascii ''y''))) k)"
    | "mm = m_lits (pat (ascii ''aug'')) (m_opt (m_lits (pat (ascii ''ust''))) k)"
    | "mm = m_lits (pat (ascii ''sep''))
          (m_opt (\<lambda>k'. m_lits (pat (ascii ''t'')) (m_opt (m_lits (pat (ascii ''ember''))) k')) k)"
    | "mm = m_lits (pat (ascii ''oct'')) (m_opt (m_lits (pat (ascii ''ober''))) k)"
    | "mm = m_lits (pat (ascii ''nov'')) (m_opt (m_lits (pat (ascii ''ember''))) k)"
    | "mm = m_lits (pat (ascii ''dec'')) (m_opt (m_lits (pat (ascii ''ember''))) k)"
    unfolding list.set insert_iff empty_iff by blast
  then show ?thesis
  proof cases
    case 1
    from k ascii_letters(1) ascii_letters(2) r [unfolded 1] show ?thesis by (rule m_word_opt_conf)
  next
    case 2
    from k ascii_letters(3) ascii_letters(4) r [unfolded 2] show ?thesis by (rule m_word_opt_conf)
  next
    case 3
    from k ascii_letters(5) ascii_letters(6) r [unfolded 3] show ?thesis by (rule m_word_opt_conf)
  next
    case 4
    from k ascii_letters(7) ascii_letters(8) r [unfolded 4] show ?thesis by (rule m_word_opt_conf)
  next
    case 5
    from k ascii_letters(9) r [unfolded 5] show ?thesis by (rule m_word_conf)
  next
    case 6
    from k ascii_letters(10) ascii_letters(11) r [unfolded 6] show ?thesis by (rule m_word_opt_conf)
  next
    case 7
    from k ascii_letters(12) ascii_letters(13) r [unfolded 7] show ?thesis by (rule m_word_opt_conf)
  next
    case 8
    from k ascii_letters(14) ascii_letters(15) r [unfolded 8] show ?thesis by (rule m_word_opt_conf)
  next
    case 9
    from sept ascii_letters(16) r [unfolded 9] show ?thesis by (rule m_word_conf)
  next
    case 10
    from k ascii_letters(19) ascii_letters(20) r [unfolded 10] show ?thesis by (rule m_word_opt_conf)
  next
    case 11
    from k ascii_letters(21) ascii_letters(18) r [unfolded 11] show ?thesis by (rule m_word_opt_conf)
  next
    case 12
    from k ascii_letters(22) ascii_letters(18) r [unfolded 12] show ?thesis by (rule m_word_opt_conf)
  qed
qed

lemma DATE_RE_conf:
  assumes "DATE_RE cs = Some n"
  shows "n \<le> length cs \<and> (58, 58, False) \<notin> set (take n cs)"
proof -
  have e: "n \<le> length cs \<and> (58, 58, False) \<notin> set (take n cs)" if "m_end cs = Some n" for cs n
    using that by (simp add: m_end_def)
  have y: "n \<le> length cs \<and> (58, 58, False) \<notin> set (take n cs)"
    if "m_year m_end cs = Some n" for cs n
    using e that by (rule m_year_conf)
  have s1: "n \<le> length cs \<and> (58, 58, False) \<notin> set (take n cs)"
    if "m_sep (m_year m_end) cs = Some n" for cs n
    using y that by (rule m_sep_conf)
  have d1: "n \<le> length cs \<and> (58, 58, False) \<notin> set (take n cs)"
    if "m_d12 (m_sep (m_year m_end)) cs = Some n" for cs n
    using s1 that by (rule m_d12_conf)
  have s2: "n \<le> length cs \<and> (58, 58, False) \<notin> set (take n cs)"
    if "m_sep (m_d12 (m_sep (m_year m_end))) cs = Some n" for cs n
    using d1 that by (rule m_sep_conf)
  have a: "n \<le> length cs \<and> (58, 58, False) \<notin> set (take n cs)"
    if "m_d12 (m_sep (m_d12 (m_sep (m_year m_end)))) cs = Some n" for cs n
    using s2 that by (rule m_d12_conf)
  have w1: "n \<le> length cs \<and> (58, 58, False) \<notin> set (take n cs)"
    if "m_ws (m_year m_end) cs = Some n" for cs n
    using y that by (rule m_ws_conf)
  have mo: "n \<le> length cs \<and> (58, 58, False) \<notin> set (take n cs)"
    if "m_month (m_ws (m_year m_end)) cs = Some n" for cs n
    using w1 that by (rule m_month_conf)
  have w2: "n \<le> length cs \<and> (58, 58, False) \<notin> set (take n cs)"
    if "m_ws (m_month (m_ws (m_year m_end))) cs = Some n" for cs n
    using mo that by (rule m_ws_conf)
  have b: "n \<le> length cs \<and> (58, 58, False) \<notin> set (take n cs)"
    if "m_d12 (m_ws (m_month (m_ws (m_year m_end)))) cs = Some n" for cs n
    using w2 that by (rule m_d12_conf)
  from m_alt_Some [OF assms [unfolded DATE_RE_def]] show ?thesis
    using a b by auto
qed


text \<open>
  The phrase "Deadline: 15 March 2025" inside any text: its keyword is matched where it
  stands, and the date pattern matches "15 March 2025" in every window that holds the
  phrase, for no match that starts before the phrase gets past its colon.
\<close>

lemma map_classify_ascii:
  assumes "ascii_exact U" "\<forall>c \<in> set s. c < 128"
  shows "map (classify U) s = map (classify ascii_db) s"
  using assms by (intro map_cong) (simp_all add: classify_ascii)

lemma kw_at_phrase:
  assumes "ascii_exact U"
  shows "KW_RE (map (classify U) (ascii ''Deadline: 15 March 2025'' @ post)) = Some 8"
proof -
  have "\<forall>c \<in> set (ascii ''Deadline: 15 March 2025''). c < 128" by (simp add: ascii_def)
  then have "map (classify U) (ascii ''Deadline: 15 March 2025'')
      = map (classify ascii_db) (ascii ''Deadline: 15 March 2025'')"
    by (rule map_classify_ascii [OF assms])
  then have "map (classify U) (ascii ''Deadline: 15 March 2025'' @ post)
      = map (classify ascii_db) (ascii ''Deadline: 15 March 2025'') @ map (classify U) post"
    by simp
  then show ?thesis by (simp add: eval_regex)
qed

lemma date_at_phrase:
  assumes "ascii_exact U"
  shows "(p + 1, p + 14)
     \<in> set (scan DATE_RE p 0 (map (classify U) (ascii '' 15 March 2025'' @ post)))"
proof -
  have "\<forall>c \<in> set (ascii '' 15 March 2025''). c < 128" by (simp add: ascii_def)
  then have "map (classify U) (ascii '' 15 March 2025'')
      = map (classify ascii_db) (ascii '' 15 March 2025'')"
    by (rule map_classify_ascii [OF assms])
  then have "map (classify U) (ascii '' 15 March 2025'' @ post)
      = map (classify ascii_db) (ascii '' 15 March 2025'') @ map (classify U) post"
    by simp
  then show ?thesis by (simp add: eval_regex)
qed

lemma no_crossing:
  assumes "\<And>cs n. m cs = Some n \<Longrightarrow> n \<le> length cs \<and> x \<notin> set (take n cs)"
  shows "\<forall>q < length (xs @ [x]). \<forall>n. m (drop q ((xs @ [x]) @ ys)) = Some n
           \<longrightarrow> q + n \<le> length (xs @ [x])"
proof (intro allI impI)
  fix q n
  assume q: "q < length (xs @ [x])" and m: "m (drop q ((xs @ [x]) @ ys)) = Some n"
  let ?L = "(xs @ [x]) @ ys"
  from assms [OF m] have b: "n \<le> length (drop q ?L)" and f: "x \<notin> set (take n (drop q ?L))"
    by simp_all
  show "q + n \<le> length (xs @ [x])"
  proof (rule ccontr)
    assume "\<not> q + n \<le> length (xs @ [x])"
    then have j: "length xs - q < n" using q by simp
    have "take n (drop q ?L) ! (length xs - q) = drop q ?L ! (length xs - q)"
      using j by (rule nth_take)
    also have "\<dots> = ?L ! (q + (length xs - q))"
      using q by (intro nth_drop) simp
    also have "\<dots> = ?L ! length xs" using q by simp
    also have "\<dots> = x" by simp
    finally have "take n (drop q ?L) ! (length xs - q) = x" .
    moreover have "length xs - q < length (take n (drop q ?L))" using j b by simp
    ultimately have "x \<in> set (take n (drop q ?L))" using nth_mem by metis
    with f show False by simp
  qed
qed

lemma date_in_window:
  assumes U: "ascii_exact U"
  shows "(length pre + 10, length pre + 23)
     \<in> set (finditer DATE_RE U (pre @ ascii ''Deadline: 15 March 2025'' @ post))"
proof -
  let ?C = "map (classify U)"
  have c: "classify U 58 = (58, 58, False)"
    using classify_ascii [OF U, of 58]
    by (simp add: classify_def ascii_db_def ascii_lower_def is_digit_def)
  have t: "pre @ ascii ''Deadline: 15 March 2025'' @ post
      = (pre @ ascii ''Deadline'') @ [58] @ ascii '' 15 March 2025'' @ post"
    by (simp add: ascii_def)
  have s: "?C (pre @ ascii ''Deadline: 15 March 2025'' @ post)
      = (?C (pre @ ascii ''Deadline'') @ [(58, 58, False)]) @ ?C (ascii '' 15 March 2025'' @ post)"
    unfolding t by (simp add: c)
  have l: "length (?C (pre @ ascii ''Deadline'') @ [(58, 58, False)]) = length pre + 9"
    by (simp add: ascii_def)
  have nc: "\<forall>q < length (?C (pre @ ascii ''Deadline'') @ [(58, 58, False)]). \<forall>n.
      DATE_RE (drop q ((?C (pre @ ascii ''Deadline'') @ [(58, 58, False)])
                       @ ?C (ascii '' 15 March 2025'' @ post))) = Some n
      \<longrightarrow> q + n \<le> length (?C (pre @ ascii ''Deadline'') @ [(58, 58, False)])"
    by (rule no_crossing) (rule DATE_RE_conf)
  from scan_split [OF nc, of 0 0]
  obtain front where
    "scan DATE_RE 0 0 ((?C (pre @ ascii ''Deadline'') @ [(58, 58, False)])
         @ ?C (ascii '' 15 March 2025'' @ post))
      = front @ scan DATE_RE (0 + length (?C (pre @ ascii ''Deadline'') @ [(58, 58, False)])) 0
                  (?C (ascii '' 15 March 2025'' @ post))"
    by auto
  then have "finditer DATE_RE U (pre @ ascii ''Deadline: 15 March 2025'' @ post)
      = front @ scan DATE_RE (length pre + 9) 0 (?C (ascii '' 15 March 2025'' @ post))"
    unfolding finditer_def s l by simp
  moreover have "(length pre + 9 + 1, length pre + 9 + 14)
      \<in> set (scan DATE_RE (length pre + 9) 0 (?C (ascii '' 15 March 2025'' @ post)))"
    by (rule date_at_phrase [OF U])
  ultimately show ?thesis by (simp add: add.commute)
qed


text \<open>\<open>mine_dates\<close> and the miner of the specification collect the same date texts.\<close>

lemma window_spec: "window txt km = spec_window txt km"
  by (simp add: window_def spec_window_def WIN_def py_slice_nth)

lemma DATE_RE_spans:
  assumes "(s, e) \<in> set (finditer DATE_RE U w)"
  shows "s \<le> e \<and> e \<le> length w"
proof -
  have "\<forall>(s, e) \<in> set (scan DATE_RE 0 0 (map (classify U) w)).
      0 \<le> s \<and> s \<le> e \<and> e \<le> 0 + length (map (classify U) w)"
    by (rule scan_bounds) (simp add: DATE_RE_conf)
  then show ?thesis using assms by (auto simp add: finditer_def)
qed

lemma date_strings_spec: "set (date_strings U txt) = spec_date_texts U txt"
proof -
  have sl: "py_slice s e (spec_window txt km) = map ((!) (spec_window txt km)) [s ..< e]"
    if "(s, e) \<in> set (finditer DATE_RE U (spec_window txt km))" for s e km
    using DATE_RE_spans [OF that] by (simp add: py_slice_nth min_def)
  show ?thesis
  proof (intro equalityI subsetI)
    fix t assume "t \<in> set (date_strings U txt)"
    then obtain km s e where km: "km \<in> set (finditer KW_RE U txt)"
      and se: "(s, e) \<in> set (finditer DATE_RE U (spec_window txt km))"
      and t: "t = py_slice s e (spec_window txt km)"
      by (auto simp add: date_strings_def window_spec)
    show "t \<in> spec_date_texts U txt"
      unfolding spec_date_texts_def using km se t sl [OF se] by blast
  next
    fix t assume "t \<in> spec_date_texts U txt"
    then obtain km s e where km: "km \<in> set (finditer KW_RE U txt)"
      and se: "(s, e) \<in> set (finditer DATE_RE U (spec_window txt km))"
      and t: "t = map ((!) (spec_window txt km)) [s ..< e]"
      unfolding spec_date_texts_def by blast
    have "py_slice s e (window txt km) \<in> set (date_strings U txt)"
      unfolding date_strings_def using km se by (force simp add: window_spec)
    then show "t \<in> set (date_strings U txt)" using t sl [OF se] by (simp add: window_spec)
  qed
qed

lemma date_texts_near_keyword:
  assumes "t \<in> spec_date_texts U txt"
  shows "\<exists>(ks, ke) \<in> set (finditer KW_RE U txt). \<exists>a b.
           ks - 300 \<le> a \<and> a \<le> b \<and> b \<le> ke + 300 \<and> b \<le> length txt
           \<and> t = map ((!) txt) [a ..< b]"
proof -
  from assms obtain km s e where km: "km \<in> set (finditer KW_RE U txt)"
    and se: "(s, e) \<in> set (finditer DATE_RE U (spec_window txt km))"
    and t: "t = map ((!) (spec_window txt km)) [s ..< e]"
    unfolding spec_date_texts_def by blast
  obtain ks ke where k: "km = (ks, ke)" by (cases km)
  let ?lo = "ks - 300" and ?hi = "min (ke + 300) (length txt)"
  have w: "spec_window txt km = map ((!) txt) [?lo ..< ?hi]" by (simp add: spec_window_def k)
  have b: "s \<le> e" "e \<le> ?hi - ?lo" using DATE_RE_spans [OF se] by (simp_all add: w)
  have "spec_window txt km \<noteq> []" using se by (auto simp add: finditer_def)
  then have "[?lo ..< ?hi] \<noteq> []" unfolding w by simp
  then have lh: "?lo < ?hi" by (cases "?lo < ?hi") simp_all
  have "map ((!) (spec_window txt km)) [s ..< e] = map ((!) txt) [?lo + s ..< ?lo + e]"
  proof (rule nth_equalityI)
    show "length (map ((!) (spec_window txt km)) [s ..< e])
        = length (map ((!) txt) [?lo + s ..< ?lo + e])" by simp
  next
    fix i assume "i < length (map ((!) (spec_window txt km)) [s ..< e])"
    then have i: "i < e - s" by simp
    then have si: "s + i < ?hi - ?lo" using b by simp
    then have "?lo + (s + i) < ?hi" by (simp add: less_diff_conv add.commute)
    then have "[?lo ..< ?hi] ! (s + i) = ?lo + (s + i)" by (rule nth_upt)
    moreover have "s + i < length [?lo ..< ?hi]" using si by simp
    ultimately have "spec_window txt km ! (s + i) = txt ! (?lo + (s + i))"
      unfolding w by (simp only: nth_map)
    then show "map ((!) (spec_window txt km)) [s ..< e] ! i
        = map ((!) txt) [?lo + s ..< ?lo + e] ! i"
      using i by (simp add: add.assoc del: upt_Suc)
  qed
  then have "t = map ((!) txt) [?lo + s ..< ?lo + e]" using t by simp
  moreover have "?lo \<le> ?lo + s" "?lo + s \<le> ?lo + e" using b by simp_all
  moreover have "?lo + e \<le> ?hi" using b lh by linarith
  then have "?lo + e \<le> ke + 300" "?lo + e \<le> length txt" by simp_all
  ultimately show ?thesis using km k by blast
qed

lemma found_spec:
  assumes "\<forall>t \<in> spec_date_texts U txt. parse t \<noteq> None"
  shows "mine_dates U parse txt
       = Inr (take 2 (sort_key ymd (remdups (map (\<lambda>s. the (parse s)) (date_strings U txt)))))"
    and "set (map (\<lambda>s. the (parse s)) (date_strings U txt)) = spec_found U parse txt"
proof -
  have ok: "\<forall>s \<in> set (date_strings U txt). parse s \<noteq> None"
    using assms by (simp add: date_strings_spec)
  show "mine_dates U parse txt
       = Inr (take 2 (sort_key ymd (remdups (map (\<lambda>s. the (parse s)) (date_strings U txt)))))"
    by (simp add: mine_dates_def parse_dates_all [OF ok])
  show "set (map (\<lambda>s. the (parse s)) (date_strings U txt)) = spec_found U parse txt"
    using ok unfolding spec_found_def date_strings_spec [symmetric]
    by (force simp add: image_iff)
qed


lemma window_around:
  assumes "s \<le> length pre" "length pre < e"
  shows "\<exists>pre' post'. window (pre @ ascii ''Deadline: 15 March 2025'' @ post) (s, e)
           = pre' @ ascii ''Deadline: 15 March 2025'' @ post'"
proof -
  let ?P = "ascii ''Deadline: 15 March 2025''"
  have lp: "length ?P = 23" by (simp add: ascii_def)
  have d: "drop (s - 300) (pre @ ?P @ post) = drop (s - 300) pre @ ?P @ post"
    using assms(1) by simp
  have n: "length (drop (s - 300) pre) + 23 \<le> e + 300 - (s - 300)"
    using assms by simp
  have "take (e + 300 - (s - 300)) (drop (s - 300) pre @ ?P @ post)
      = drop (s - 300) pre @ ?P
          @ take (e + 300 - (s - 300) - length (drop (s - 300) pre) - 23) post"
    using n lp by (simp del: length_drop)
  then show ?thesis
    unfolding window_def py_slice_def WIN_def fst_conv snd_conv d by blast
qed

lemma phrase_date_text:
  assumes U: "ascii_exact U"
  shows "ascii ''15 March 2025''
     \<in> spec_date_texts U (pre @ ascii ''Deadline: 15 March 2025'' @ post)"
proof -
  let ?P = "ascii ''Deadline: 15 March 2025''"
  let ?txt = "pre @ ?P @ post"
  have k: "KW_RE (drop (length pre) (map (classify U) ?txt)) = Some 8"
    using kw_at_phrase [OF U, of post] by (simp add: drop_map)
  have l: "length pre < length (map (classify U) ?txt)" by (simp add: ascii_def)
  from scan_covers [where m = KW_RE and p = "length pre" and cs = "map (classify U) ?txt"
      and n = 8 and skip = 0 and pos = 0, OF k _ l]
  obtain s e where se: "(s, e) \<in> set (finditer KW_RE U ?txt)"
    and b: "s \<le> length pre" "length pre < e"
    by (auto simp add: finditer_def)
  from window_around [OF b, of post] obtain pre' post' where
    w: "window ?txt (s, e) = pre' @ ?P @ post'" by blast
  have m: "(length pre' + 10, length pre' + 23) \<in> set (finditer DATE_RE U (window ?txt (s, e)))"
    unfolding w by (rule date_in_window [OF U])
  have t: "py_slice (length pre' + 10) (length pre' + 23) (window ?txt (s, e))
      = ascii ''15 March 2025''"
    unfolding w by (simp add: py_slice_def ascii_def)
  have "py_slice (length pre' + 10) (length pre' + 23) (window ?txt (s, e))
      \<in> set (date_strings U ?txt)"
    unfolding date_strings_def using se m by force
  then show ?thesis by (simp add: t date_strings_spec)
qed

lemma candidate_or_two_earlier:
  fixes ds :: "date list"
  assumes "d \<in> set ds"
  shows "d \<in> set (take 2 (sort_key ymd (remdups ds)))
     \<or> (length (take 2 (sort_key ymd (remdups ds))) = 2
         \<and> (\<forall>c \<in> set (take 2 (sort_key ymd (remdups ds))). ymd c < ymd d))"
proof (cases "d \<in> set (take 2 (sort_key ymd (remdups ds)))")
  case True
  then show ?thesis by simp
next
  case False
  let ?c = "take 2 (sort_key ymd (remdups ds))"
  have e: "\<forall>c \<in> set ?c. ymd c < ymd d"
    using two_earliest(4) [of ds] assms False by blast
  have l: "length ?c = min 2 (card (set ds))" by (rule two_earliest(1))
  have "2 \<le> card (set ds)"
  proof (rule ccontr)
    assume "\<not> 2 \<le> card (set ds)"
    then have "length (sort_key ymd (remdups ds)) < 2"
      using length_remdups_card_conv [of ds] by simp
    then have "?c = sort_key ymd (remdups ds)" by simp
    then have "set ?c = set ds" by simp
    with assms False show False by simp
  qed
  then show ?thesis using e l by simp
qed


text \<open>
  Texts for the examples: two earlier dates before the phrase; the keyword, a filler of
  the letter x and the date, which the window of 300 characters after the keyword holds
  when the filler has 287 letters and does not reach when it has 301; and an earlier
  date before the phrase.
\<close>

lemma cx_kw:
  "finditer KW_RE ascii_db (ascii ''01/01/2025 02/01/2025 '' @ ascii ''Deadline: 15 March 2025'')
     = [(22, 30)]"
  by (simp add: eval_regex)

lemma cx_window:
  "window (ascii ''01/01/2025 02/01/2025 '' @ ascii ''Deadline: 15 March 2025'') (22, 30)
     = ascii ''01/01/2025 02/01/2025 Deadline: 15 March 2025''"
  by (simp add: window_def WIN_def py_slice_def ascii_def)

lemma cx_date:
  "finditer DATE_RE ascii_db (ascii ''01/01/2025 02/01/2025 Deadline: 15 March 2025'')
     = [(0, 10), (11, 21), (32, 45)]"
  by (simp add: eval_regex)

lemma cx_strings:
  "date_strings ascii_db (ascii ''01/01/2025 02/01/2025 '' @ ascii ''Deadline: 15 March 2025'')
     = [ascii ''01/01/2025'', ascii ''02/01/2025'', ascii ''15 March 2025'']"
  by (simp add: date_strings_def cx_kw cx_window cx_date) (simp add: py_slice_def ascii_def)


lemma scan_replicate:
  assumes "\<And>cs. m (x # cs) = None"
  shows "scan m pos 0 (replicate n x @ rest) = scan m (pos + n) 0 rest"
proof (induction n arbitrary: pos)
  case 0
  show ?case by simp
next
  case (Suc n)
  have "scan m pos 0 (replicate (Suc n) x @ rest) = scan m (pos + 1) 0 (replicate n x @ rest)"
    by (simp add: assms)
  then show ?case using Suc [of "pos + 1"] by simp
qed

lemma scan_skip: "scan m pos (length xs) (xs @ rest) = scan m (pos + length xs) 0 rest"
proof (induction xs arbitrary: pos)
  case Nil
  show ?case by simp
next
  case (Cons x xs)
  show ?case using Cons [of "pos + 1"] by simp
qed

lemma scan_match_head:
  assumes "m (xs @ rest) = Some (length xs)" "xs \<noteq> []"
  shows "scan m pos 0 (xs @ rest) = (pos, pos + length xs) # scan m (pos + length xs) 0 rest"
proof -
  obtain x xs' where x: "xs = x # xs'" using assms(2) by (cases xs) simp_all
  show ?thesis using assms(1) scan_skip [of m "pos + 1" xs' rest] by (simp add: x)
qed

lemma kw_x: "scan KW_RE pos 0 (replicate n (120, 120, False) @ rest) = scan KW_RE (pos + n) 0 rest"
  by (rule scan_replicate) (simp add: eval_regex)

lemma date_x: "scan DATE_RE pos 0 (replicate n (120, 120, False) @ rest) = scan DATE_RE (pos + n) 0 rest"
  by (rule scan_replicate) (simp add: eval_regex)

lemma date_nondigit: "DATE_RE ((c, l, False) # cs) = None"
  by (simp add: DATE_RE_def m_d12_def m_digit_def)

lemma kw_word:
  "map (classify ascii_db) (ascii ''deadline'')
     = [(100, 100, False), (101, 101, False), (97, 97, False), (100, 100, False),
        (108, 108, False), (105, 105, False), (110, 110, False), (101, 101, False)]"
  by (simp add: ascii_def classify_def ascii_db_def ascii_lower_def is_digit_def)

lemma kw_word_length: "length (map (classify ascii_db) (ascii ''deadline'')) = 8"
  by (simp add: ascii_def)

lemma kw_head: "KW_RE (map (classify ascii_db) (ascii ''deadline'') @ rest) = Some 8"
  by (simp add: eval_regex)

lemma kw_tail: "scan KW_RE pos 0 (map (classify ascii_db) (ascii ''15 March 2025'')) = []"
  by (simp add: eval_regex)

lemma date_tail:
  "scan DATE_RE pos 0 (map (classify ascii_db) (ascii ''15 March 2025'')) = [(pos, pos + 13)]"
  by (simp add: eval_regex)

lemma scan_nondigits:
  assumes "\<forall>x \<in> set xs. \<not> snd (snd x)"
  shows "scan DATE_RE pos 0 (xs @ rest) = scan DATE_RE (pos + length xs) 0 rest"
  using assms
proof (induction xs arbitrary: pos)
  case Nil
  show ?case by simp
next
  case (Cons x xs)
  obtain c l where x: "x = (c, l, False)" using Cons.prems by (cases x) auto
  show ?case using Cons.IH [of "pos + 1"] Cons.prems by (simp add: x date_nondigit)
qed

lemma date_kw_word:
  "scan DATE_RE pos 0 (map (classify ascii_db) (ascii ''deadline'') @ rest)
     = scan DATE_RE (pos + 8) 0 rest"
proof -
  have "\<forall>x \<in> set (map (classify ascii_db) (ascii ''deadline'')). \<not> snd (snd x)"
    by (simp add: kw_word)
  from scan_nondigits [OF this, of pos rest] show ?thesis unfolding kw_word_length .
qed

lemma filler_kw:
  "finditer KW_RE ascii_db (ascii ''deadline'' @ replicate n 120 @ ascii ''15 March 2025'')
     = [(0, 8)]"
proof -
  let ?K = "map (classify ascii_db) (ascii ''deadline'')"
  let ?D = "map (classify ascii_db) (ascii ''15 March 2025'')"
  have x: "classify ascii_db 120 = (120, 120, False)"
    by (simp add: classify_def ascii_db_def ascii_lower_def is_digit_def)
  have "finditer KW_RE ascii_db (ascii ''deadline'' @ replicate n 120 @ ascii ''15 March 2025'')
      = scan KW_RE 0 0 (?K @ (replicate n (120, 120, False) @ ?D))"
    by (simp only: finditer_def map_append map_replicate x)
  also have "\<dots> = (0, 0 + length ?K) # scan KW_RE (0 + length ?K) 0
      (replicate n (120, 120, False) @ ?D)"
  proof (rule scan_match_head)
    show "KW_RE (?K @ replicate n (120, 120, False) @ ?D) = Some (length ?K)"
      unfolding kw_word_length by (rule kw_head)
    show "?K \<noteq> []" by (simp add: ascii_def)
  qed
  also have "\<dots> = [(0, 8)]"
    unfolding kw_word_length kw_x kw_tail by simp
  finally show ?thesis .
qed

lemma far_window:
  "window (ascii ''deadline'' @ replicate 301 120 @ ascii ''15 March 2025'') (0, 8)
     = ascii ''deadline'' @ replicate 300 120"
  by (simp add: window_def WIN_def py_slice_def ascii_def)

lemma near_window:
  "window (ascii ''deadline'' @ replicate 287 120 @ ascii ''15 March 2025'') (0, 8)
     = ascii ''deadline'' @ replicate 287 120 @ ascii ''15 March 2025''"
  by (simp add: window_def WIN_def py_slice_def ascii_def)

lemma far_strings:
  "date_strings ascii_db (ascii ''deadline'' @ replicate 301 120 @ ascii ''15 March 2025'') = []"
proof -
  have x: "classify ascii_db 120 = (120, 120, False)"
    by (simp add: classify_def ascii_db_def ascii_lower_def is_digit_def)
  have "finditer DATE_RE ascii_db (ascii ''deadline'' @ replicate 300 120)
      = scan DATE_RE 0 0 (map (classify ascii_db) (ascii ''deadline'')
          @ (replicate 300 (120, 120, False) @ []))"
    by (simp add: finditer_def x)
  also have "\<dots> = []" unfolding date_kw_word date_x by simp
  finally show ?thesis by (simp add: date_strings_def filler_kw far_window)
qed

lemma near_strings:
  "date_strings ascii_db (ascii ''deadline'' @ replicate 287 120 @ ascii ''15 March 2025'')
     = [ascii ''15 March 2025'']"
proof -
  have x: "classify ascii_db 120 = (120, 120, False)"
    by (simp add: classify_def ascii_db_def ascii_lower_def is_digit_def)
  have "finditer DATE_RE ascii_db (ascii ''deadline'' @ replicate 287 120 @ ascii ''15 March 2025'')
      = scan DATE_RE 0 0 (map (classify ascii_db) (ascii ''deadline'')
          @ (replicate 287 (120, 120, False) @ map (classify ascii_db) (ascii ''15 March 2025'')))"
    by (simp add: finditer_def x)
  also have "\<dots> = [(295, 308)]" unfolding date_kw_word date_x date_tail by simp
  finally have d: "finditer DATE_RE ascii_db
      (ascii ''deadline'' @ replicate 287 120 @ ascii ''15 March 2025'') = [(295, 308)]" .
  have s: "py_slice 295 308 (ascii ''deadline'' @ replicate 287 120 @ ascii ''15 March 2025'')
      = ascii ''15 March 2025''"
    by (simp add: py_slice_def ascii_def)
  show ?thesis by (simp add: date_strings_def filler_kw near_window d s)
qed


lemma w3_kw:
  "finditer KW_RE ascii_db (ascii ''1 Feb 2025, '' @ ascii ''Deadline: 15 March 2025'' @ ascii ''.'')
     = [(12, 20)]"
  by (simp add: eval_regex)

lemma w3_window:
  "window (ascii ''1 Feb 2025, '' @ ascii ''Deadline: 15 March 2025'' @ ascii ''.'') (12, 20)
     = ascii ''1 Feb 2025, Deadline: 15 March 2025.''"
  by (simp add: window_def WIN_def py_slice_def ascii_def)

lemma w3_date:
  "finditer DATE_RE ascii_db (ascii ''1 Feb 2025, Deadline: 15 March 2025.'')
     = [(0, 10), (22, 35)]"
  by (simp add: eval_regex)

lemma w3_strings:
  "date_strings ascii_db (ascii ''1 Feb 2025, '' @ ascii ''Deadline: 15 March 2025'' @ ascii ''.'')
     = [ascii ''1 Feb 2025'', ascii ''15 March 2025'']"
  by (simp add: date_strings_def w3_kw w3_window w3_date) (simp add: py_slice_def ascii_def)


text \<open>
  Claim C8 (deadline mining selection), as the code has it. When every date text found
  is parsed, the candidates of a document are the dates that the miner of the
  specification finds, in ascending order and cut after the second: at most two,
  distinct, each a found date, and every found date that is not a candidate is later
  than every candidate. Every date text found lies in the document between 300
  characters before the start of a keyword match and 300 characters after its end. A
  text that contains "Deadline: 15 March 2025" has "15 March 2025" among its date texts,
  whatever surrounds the phrase; when the parser reads it as 2025-03-15, that date is
  found, and it is a candidate unless the two candidates are earlier dates. On the text
  "Deadline: 15 March 2025" alone it is the one candidate. (What happens when a date
  text is not parsed is the subject of claim C9.)
\<close>

theorem mined_candidates_two_earliest:
  "((\<forall>t \<in> spec_date_texts U txt. parse t \<noteq> None) \<longrightarrow>
      (\<exists>cands. mine_dates U parse txt = Inr cands
         \<and> length cands = min 2 (card (spec_found U parse txt))
         \<and> sorted_wrt (\<lambda>a b. ymd a < ymd b) cands
         \<and> set cands \<subseteq> spec_found U parse txt
         \<and> (\<forall>d \<in> spec_found U parse txt - set cands. \<forall>c \<in> set cands. ymd c < ymd d)))
   \<and> (\<forall>t \<in> spec_date_texts U txt. \<exists>(ks, ke) \<in> set (finditer KW_RE U txt). \<exists>a b.
          ks - 300 \<le> a \<and> a \<le> b \<and> b \<le> ke + 300 \<and> b \<le> length txt
          \<and> t = map ((!) txt) [a ..< b])
   \<and> (ascii_exact U \<and> parse (ascii ''15 March 2025'') = Some \<lparr>year = 2025, month = 3, day = 15\<rparr>
        \<and> (\<forall>t \<in> spec_date_texts U (pre @ ascii ''Deadline: 15 March 2025'' @ post).
               parse t \<noteq> None)
      \<longrightarrow> \<lparr>year = 2025, month = 3, day = 15\<rparr>
             \<in> spec_found U parse (pre @ ascii ''Deadline: 15 March 2025'' @ post)
          \<and> (\<exists>cands. mine_dates U parse (pre @ ascii ''Deadline: 15 March 2025'' @ post) = Inr cands
                \<and> (\<lparr>year = 2025, month = 3, day = 15\<rparr> \<in> set cands
                     \<or> (length cands = 2
                         \<and> (\<forall>c \<in> set cands. ymd c < ymd \<lparr>year = 2025, month = 3, day = 15\<rparr>)))))
   \<and> (ascii_exact U \<and> parse (ascii ''15 March 2025'') = Some \<lparr>year = 2025, month = 3, day = 15\<rparr>
        \<longrightarrow> mine_dates U parse (ascii ''Deadline: 15 March 2025'')
              = Inr [\<lparr>year = 2025, month = 3, day = 15\<rparr>])"
proof (intro conjI impI ballI)
  assume ok: "\<forall>t \<in> spec_date_texts U txt. parse t \<noteq> None"
  let ?ds = "map (\<lambda>s. the (parse s)) (date_strings U txt)"
  let ?cands = "take 2 (sort_key ymd (remdups ?ds))"
  note f = found_spec(2) [OF ok, symmetric] and m = found_spec(1) [OF ok]
  show "\<exists>cands. mine_dates U parse txt = Inr cands
         \<and> length cands = min 2 (card (spec_found U parse txt))
         \<and> sorted_wrt (\<lambda>a b. ymd a < ymd b) cands
         \<and> set cands \<subseteq> spec_found U parse txt
         \<and> (\<forall>d \<in> spec_found U parse txt - set cands. \<forall>c \<in> set cands. ymd c < ymd d)"
    unfolding f using m two_earliest [of ?ds] by blast
next
  fix t assume "t \<in> spec_date_texts U txt"
  then show "\<exists>(ks, ke) \<in> set (finditer KW_RE U txt). \<exists>a b.
          ks - 300 \<le> a \<and> a \<le> b \<and> b \<le> ke + 300 \<and> b \<le> length txt
          \<and> t = map ((!) txt) [a ..< b]"
    by (rule date_texts_near_keyword)
next
  let ?d = "\<lparr>year = 2025, month = 3, day = 15\<rparr>"
  let ?txt = "pre @ ascii ''Deadline: 15 March 2025'' @ post"
  assume a: "ascii_exact U \<and> parse (ascii ''15 March 2025'') = Some ?d
        \<and> (\<forall>t \<in> spec_date_texts U ?txt. parse t \<noteq> None)"
  then have "ascii ''15 March 2025'' \<in> spec_date_texts U ?txt" by (simp add: phrase_date_text)
  then show "?d \<in> spec_found U parse ?txt" using a unfolding spec_found_def by blast
next
  let ?d = "\<lparr>year = 2025, month = 3, day = 15\<rparr>"
  let ?txt = "pre @ ascii ''Deadline: 15 March 2025'' @ post"
  assume a: "ascii_exact U \<and> parse (ascii ''15 March 2025'') = Some ?d
        \<and> (\<forall>t \<in> spec_date_texts U ?txt. parse t \<noteq> None)"
  then have ok: "\<forall>t \<in> spec_date_texts U ?txt. parse t \<noteq> None" by simp
  let ?ds = "map (\<lambda>s. the (parse s)) (date_strings U ?txt)"
  have "ascii ''15 March 2025'' \<in> spec_date_texts U ?txt" using a by (simp add: phrase_date_text)
  then have "?d \<in> spec_found U parse ?txt" using a unfolding spec_found_def by blast
  then have "?d \<in> set ?ds" unfolding found_spec(2) [OF ok] .
  from candidate_or_two_earlier [OF this] found_spec(1) [OF ok]
  show "\<exists>cands. mine_dates U parse ?txt = Inr cands
          \<and> (?d \<in> set cands \<or> (length cands = 2 \<and> (\<forall>c \<in> set cands. ymd c < ymd ?d)))"
    by blast
next
  assume a: "ascii_exact U \<and> parse (ascii ''15 March 2025'') = Some \<lparr>year = 2025, month = 3, day = 15\<rparr>"
  have "\<forall>c \<in> set (ascii ''Deadline: 15 March 2025''). c < 128"
    by (simp add: ascii_def)
  with a have "date_strings U (ascii ''Deadline: 15 March 2025'') = [ascii ''15 March 2025'']"
    by (simp add: date_strings_ascii ex_strings)
  then show "mine_dates U parse (ascii ''Deadline: 15 March 2025'')
      = Inr [\<lparr>year = 2025, month = 3, day = 15\<rparr>]"
    using a by (simp add: mine_dates_def)
qed


text \<open>
  Instances: the date 287 characters after the keyword is mined and the date 301
  characters after it is not; with "1 Feb 2025" before the phrase both dates are
  candidates; the phrase alone gives the one candidate.
\<close>

theorem mined_candidates_two_earliest_witness:
  "ascii_exact ascii_db
   \<and> spec_date_texts ascii_db (ascii ''deadline'' @ replicate 287 120 @ ascii ''15 March 2025'')
       = {ascii ''15 March 2025''}
   \<and> mine_dates ascii_db
        (\<lambda>s. if s = ascii ''15 March 2025'' then Some \<lparr>year = 2025, month = 3, day = 15\<rparr> else None)
        (ascii ''deadline'' @ replicate 287 120 @ ascii ''15 March 2025'')
       = Inr [\<lparr>year = 2025, month = 3, day = 15\<rparr>]
   \<and> spec_found ascii_db
        (\<lambda>s. if s = ascii ''15 March 2025'' then Some \<lparr>year = 2025, month = 3, day = 15\<rparr> else None)
        (ascii ''deadline'' @ replicate 287 120 @ ascii ''15 March 2025'')
       = {\<lparr>year = 2025, month = 3, day = 15\<rparr>}
   \<and> spec_date_texts ascii_db (ascii ''deadline'' @ replicate 301 120 @ ascii ''15 March 2025'') = {}
   \<and> mine_dates ascii_db
        (\<lambda>s. if s = ascii ''15 March 2025'' then Some \<lparr>year = 2025, month = 3, day = 15\<rparr> else None)
        (ascii ''deadline'' @ replicate 301 120 @ ascii ''15 March 2025'')
       = Inr []
   \<and> spec_date_texts ascii_db
        (ascii ''1 Feb 2025, '' @ ascii ''Deadline: 15 March 2025'' @ ascii ''.'')
       = {ascii ''1 Feb 2025'', ascii ''15 March 2025''}
   \<and> \<lparr>year = 2025, month = 3, day = 15\<rparr>
       \<in> spec_found ascii_db
           (\<lambda>s. if s = ascii ''15 March 2025'' then Some \<lparr>year = 2025, month = 3, day = 15\<rparr>
                 else if s = ascii ''1 Feb 2025'' then Some \<lparr>year = 2025, month = 2, day = 1\<rparr>
                 else None)
           (ascii ''1 Feb 2025, '' @ ascii ''Deadline: 15 March 2025'' @ ascii ''.'')
   \<and> mine_dates ascii_db
        (\<lambda>s. if s = ascii ''15 March 2025'' then Some \<lparr>year = 2025, month = 3, day = 15\<rparr>
              else if s = ascii ''1 Feb 2025'' then Some \<lparr>year = 2025, month = 2, day = 1\<rparr>
              else None)
        (ascii ''1 Feb 2025, '' @ ascii ''Deadline: 15 March 2025'' @ ascii ''.'')
       = Inr [\<lparr>year = 2025, month = 2, day = 1\<rparr>, \<lparr>year = 2025, month = 3, day = 15\<rparr>]
   \<and> mine_dates ascii_db
        (\<lambda>s. if s = ascii ''15 March 2025'' then Some \<lparr>year = 2025, month = 3, day = 15\<rparr> else None)
        (ascii ''Deadline: 15 March 2025'') = Inr [\<lparr>year = 2025, month = 3, day = 15\<rparr>]"
proof -
  let ?d = "\<lparr>year = 2025, month = 3, day = 15\<rparr>"
  let ?f = "\<lparr>year = 2025, month = 2, day = 1\<rparr>"
  let ?P1 = "\<lambda>s. if s = ascii ''15 March 2025'' then Some ?d else None"
  let ?P2 = "\<lambda>s. if s = ascii ''15 March 2025'' then Some ?d
                  else if s = ascii ''1 Feb 2025'' then Some ?f else None"
  let ?near = "ascii ''deadline'' @ replicate 287 120 @ ascii ''15 March 2025''"
  let ?far = "ascii ''deadline'' @ replicate 301 120 @ ascii ''15 March 2025''"
  let ?pre = "ascii ''1 Feb 2025, ''" and ?post = "ascii ''.''"
  let ?t3 = "?pre @ ascii ''Deadline: 15 March 2025'' @ ?post"
  have U: "ascii_exact ascii_db" by (rule ascii_exact_ascii_db)
  have n1: "spec_date_texts ascii_db ?near = {ascii ''15 March 2025''}"
    unfolding date_strings_spec [symmetric] near_strings by simp
  have f1: "spec_date_texts ascii_db ?far = {}"
    unfolding date_strings_spec [symmetric] far_strings by simp
  have t1: "spec_date_texts ascii_db ?t3 = {ascii ''1 Feb 2025'', ascii ''15 March 2025''}"
    unfolding date_strings_spec [symmetric] w3_strings by simp
  have mn: "mine_dates ascii_db ?P1 ?near = Inr [?d]"
    by (simp add: mine_dates_def near_strings)
  have mf: "mine_dates ascii_db ?P1 ?far = Inr []"
    by (simp add: mine_dates_def far_strings)
  have m3: "mine_dates ascii_db ?P2 ?t3 = Inr [?f, ?d]"
    by (simp add: mine_dates_def w3_strings) (simp add: ascii_def ymd_def)
  have h1: "\<forall>t \<in> spec_date_texts ascii_db ?near. ?P1 t \<noteq> None"
    unfolding n1 by simp
  note inst1 = mined_candidates_two_earliest [of ascii_db ?near ?P1 "[]" "[]"]
  from inst1 [THEN conjunct1, THEN mp, OF h1] mn
  have c: "length [?d] = min 2 (card (spec_found ascii_db ?P1 ?near))"
    and s: "set [?d] \<subseteq> spec_found ascii_db ?P1 ?near"
    by auto
  have sf: "spec_found ascii_db ?P1 ?near = {?d}"
  proof -
    from c have "card (spec_found ascii_db ?P1 ?near) = 1" by (simp add: min_def split: if_splits)
    then obtain x where "spec_found ascii_db ?P1 ?near = {x}" by (auto simp add: card_1_singleton_iff)
    with s show ?thesis by auto
  qed
  have h3: "ascii_exact ascii_db \<and> ?P2 (ascii ''15 March 2025'') = Some ?d
      \<and> (\<forall>t \<in> spec_date_texts ascii_db ?t3. ?P2 t \<noteq> None)"
    unfolding t1 using U by simp
  note inst3 = mined_candidates_two_earliest [of ascii_db "[]" ?P2 ?pre ?post]
  from inst3 [THEN conjunct2, THEN conjunct2, THEN conjunct1, THEN mp, OF h3]
  have d3: "?d \<in> spec_found ascii_db ?P2 ?t3" by simp
  have h4: "ascii_exact ascii_db \<and> ?P1 (ascii ''15 March 2025'') = Some ?d"
    using U by simp
  from inst1 [THEN conjunct2, THEN conjunct2, THEN conjunct2, THEN mp, OF h4]
  have m4: "mine_dates ascii_db ?P1 (ascii ''Deadline: 15 March 2025'') = Inr [?d]" .
  show ?thesis
    apply (intro conjI)
            apply (rule U)
           apply (rule n1)
          apply (rule mn)
         apply (rule sf)
        apply (rule f1)
       apply (rule mf)
      apply (rule t1)
     apply (rule d3)
    apply (rule m3)
    apply (rule m4)
    done
qed


text \<open>
  The sentence of claim C8 that a text containing "Deadline: 15 March 2025" yields the
  candidate 2025-03-15 does not hold of every such text: with two earlier dates in the
  keyword window, these are the two candidates.
\<close>

theorem mined_phrase_counterexample:
  "mine_dates ascii_db
     (\<lambda>s. if s = ascii ''01/01/2025'' then Some \<lparr>year = 2025, month = 1, day = 1\<rparr>
           else if s = ascii ''02/01/2025'' then Some \<lparr>year = 2025, month = 1, day = 2\<rparr>
           else if s = ascii ''15 March 2025'' then Some \<lparr>year = 2025, month = 3, day = 15\<rparr>
           else None)
     (ascii ''01/01/2025 02/01/2025 '' @ ascii ''Deadline: 15 March 2025'')
   = Inr [\<lparr>year = 2025, month = 1, day = 1\<rparr>, \<lparr>year = 2025, month = 1, day = 2\<rparr>]"
  by (simp add: mine_dates_def cx_strings) (simp add: ascii_def ymd_def)

lemma bad_kw: "finditer KW_RE ascii_db (ascii ''deadline 32/13/2025'') = [(0, 8)]"
  by (simp add: eval_regex)

lemma bad_window: "window (ascii ''deadline 32/13/2025'') (0, 8) = ascii ''deadline 32/13/2025''"
  by (simp add: window_def WIN_def py_slice_def ascii_def)

lemma bad_date: "finditer DATE_RE ascii_db (ascii ''deadline 32/13/2025'') = [(9, 19)]"
  by (simp add: eval_regex)

lemma bad_strings:
  "date_strings ascii_db (ascii ''deadline 32/13/2025'') = [ascii ''32/13/2025'']"
  by (simp add: date_strings_def bad_kw bad_window bad_date) (simp add: py_slice_def ascii_def)

lemma pdf_loop_raises:
  assumes "mine_dates U parse (doc_text f) = Inl e"
  shows "pdf_loop U parse emb st (f # fs) = Inl e"
  using assms by (simp add: pdf_step_def)

text \<open>
  Claim C9 (miner parse-error safety) does not hold of the code: a date text that
  matches the date pattern and that the parser does not read makes the comprehension
  raise \<open>AttributeError\<close>, for \<open>.date()\<close> is applied to \<open>None\<close>, and the loop over the PDF
  files ends with that exception. The text "deadline 32/13/2025" is an instance: the
  pattern matches "32/13/2025", which is no date.
\<close>

theorem mining_raises_on_unparsed_match:
  "((\<exists>s \<in> set (date_strings U txt). parse s = None)
       \<longrightarrow> mine_dates U parse txt = Inl AttributeError)
   \<and> ((\<exists>s \<in> set (date_strings U (doc_text f)). parse s = None)
       \<longrightarrow> pdf_loop U parse emb st (f # fs) = Inl AttributeError)
   \<and> (ascii_exact U \<and> parse (ascii ''32/13/2025'') = None
       \<longrightarrow> mine_dates U parse (ascii ''deadline 32/13/2025'') = Inl AttributeError)"
proof -
  have 1: "mine_dates U parse t = Inl AttributeError"
    if "\<exists>s \<in> set (date_strings U t). parse s = None" for t
    using parse_dates_fail [OF that] by (simp add: mine_dates_def)
  have 2: "pdf_loop U parse emb st (f # fs) = Inl AttributeError"
    if "\<exists>s \<in> set (date_strings U (doc_text f)). parse s = None"
    by (rule pdf_loop_raises [OF 1 [OF that]])
  have 3: "mine_dates U parse (ascii ''deadline 32/13/2025'') = Inl AttributeError"
    if a: "ascii_exact U \<and> parse (ascii ''32/13/2025'') = None"
  proof -
    have "\<forall>c \<in> set (ascii ''deadline 32/13/2025''). c < 128"
      by (simp add: ascii_def)
    with a have "date_strings U (ascii ''deadline 32/13/2025'') = [ascii ''32/13/2025'']"
      by (simp add: date_strings_ascii bad_strings)
    then show ?thesis using a by (intro 1) simp
  qed
  show ?thesis using 1 [of "txt"] 2 3 by blast
qed

theorem mining_raises_on_unparsed_match_witness:
  "ascii_exact ascii_db
   \<and> mine_dates ascii_db (\<lambda>s. None) (ascii ''deadline 32/13/2025'') = Inl AttributeError
   \<and> pdf_loop ascii_db (\<lambda>s. None) (length :: ustr \<Rightarrow> nat) ([], [], [])
        [\<lparr>pdf_name = ascii ''a.pdf'', pdf_stem = ascii ''a'',
          pdf_pages = [\<lparr>text_layer = ascii ''deadline 32/13/2025'', ocr_text = []\<rparr>]\<rparr>]
        = Inl AttributeError"
proof -
  let ?f = "\<lparr>pdf_name = ascii ''a.pdf'', pdf_stem = ascii ''a'',
          pdf_pages = [\<lparr>text_layer = ascii ''deadline 32/13/2025'', ocr_text = []\<rparr>]\<rparr>"
  have t: "doc_text ?f = ascii ''deadline 32/13/2025''"
    by (simp add: doc_text_def page_text_def py_strip_def py_isspace_def ascii_def)
  have s: "\<exists>s \<in> set (date_strings ascii_db (doc_text ?f)). (\<lambda>s. None :: date option) s = None"
    by (simp add: t bad_strings)
  from mining_raises_on_unparsed_match [of ascii_db "[]" "\<lambda>s. None" ?f "length :: ustr \<Rightarrow> nat"
      "([], [], [])" "[]"] s ascii_exact_ascii_db
  show ?thesis by simp
qed

section \<open>Properties of the stub API stage\<close>

lemma ascii_Id_Budget: "ascii ''Id'' \<noteq> ascii ''Budget''"
  by (simp add: ascii_def)

lemma field_upd_other:
  "ascii k \<noteq> ascii k' \<Longrightarrow> field (it(ascii k' := x)) k = field it k"
  by (simp add: field_def)

lemma stub_budget_absent: "stub_budget E (it(ascii ''Budget'' := None)) = None"
  by (simp add: stub_budget_def)

lemma stub_budget_void:
  assumes "v = JNull \<or> v = JStr [] \<or> v = JInt 0 \<or> v = JBool False
           \<or> (\<exists>f. v = JFloat f \<and> env_is_zero E f)"
  shows "stub_budget E (it(ascii ''Budget'' \<mapsto> v)) = None"
  using assms by (auto simp add: stub_budget_def)

lemma item_budget_no_stub:
  assumes "stub_budget E (it(ascii ''Budget'' := x)) = None"
  shows "item_budget E (it(ascii ''Budget'' := x))
     = (case field it ''Id'' of
          JInt n \<Rightarrow> fetch_budget E (IdInt n)
        | JBool b \<Rightarrow> fetch_budget E (IdBool b)
        | _ \<Rightarrow> None)"
  using assms by (simp add: item_budget_def field_upd_other [OF ascii_Id_Budget])

lemma ascii_keys_Budget:
  "ascii ''Code'' \<noteq> ascii ''Budget''" "ascii ''callCode'' \<noteq> ascii ''Budget''"
  "ascii ''deadline_date'' \<noteq> ascii ''Budget''" "ascii ''EndDate'' \<noteq> ascii ''Budget''"
  "ascii ''call_title'' \<noteq> ascii ''Budget''" "ascii ''Title'' \<noteq> ascii ''Budget''"
  by (simp_all add: ascii_def)

lemmas field_Budget =
  field_upd_other [OF ascii_keys_Budget(1)] field_upd_other [OF ascii_keys_Budget(2)]
  field_upd_other [OF ascii_keys_Budget(3)] field_upd_other [OF ascii_keys_Budget(4)]
  field_upd_other [OF ascii_keys_Budget(5)] field_upd_other [OF ascii_keys_Budget(6)]

lemma scrape_item_budget_cong:
  assumes "item_budget E (it(ascii ''Budget'' := x)) = item_budget E (it(ascii ''Budget'' := y))"
  shows "scrape_item E (it(ascii ''Budget'' := x)) = scrape_item E (it(ascii ''Budget'' := y))"
  unfolding scrape_item_def field_Budget assms ..

lemma fetch_budget_failed: "env_detail E cid = Failed \<Longrightarrow> fetch_budget E cid = None"
  by (simp add: fetch_budget_def)

text \<open>
  Claim C10 (a void \<open>Budget\<close> field). A \<open>Budget\<close> field that holds \<open>None\<close>, the empty text
  or the number 0 (as an \<open>int\<close>, as a \<open>float\<close>, or \<open>False\<close>, which equals 0) gives no budget
  from the stub; the budget of the item is then what it is for an item without the
  field, namely the result of the detail endpoint when \<open>Id\<close> is an \<open>int\<close> and no budget
  otherwise, and no budget when the detail endpoint fails. The whole outcome for the
  item is the one of the item without the field.
\<close>

theorem zero_budget_like_absent:
  "(v = JNull \<or> v = JStr [] \<or> v = JInt 0 \<or> v = JBool False
      \<or> (\<exists>f. v = JFloat f \<and> env_is_zero E f))
   \<longrightarrow> stub_budget E (it(ascii ''Budget'' \<mapsto> v)) = None
     \<and> item_budget E (it(ascii ''Budget'' \<mapsto> v))
         = (case field it ''Id'' of
              JInt n \<Rightarrow> fetch_budget E (IdInt n)
            | JBool b \<Rightarrow> fetch_budget E (IdBool b)
            | _ \<Rightarrow> None)
     \<and> item_budget E (it(ascii ''Budget'' \<mapsto> v)) = item_budget E (it(ascii ''Budget'' := None))
     \<and> scrape_item E (it(ascii ''Budget'' \<mapsto> v)) = scrape_item E (it(ascii ''Budget'' := None))
     \<and> ((\<forall>cid. env_detail E cid = Failed) \<longrightarrow> item_budget E (it(ascii ''Budget'' \<mapsto> v)) = None)"
proof
  assume v: "v = JNull \<or> v = JStr [] \<or> v = JInt 0 \<or> v = JBool False
      \<or> (\<exists>f. v = JFloat f \<and> env_is_zero E f)"
  have 1: "stub_budget E (it(ascii ''Budget'' \<mapsto> v)) = None"
    by (rule stub_budget_void [OF v])
  have 2: "item_budget E (it(ascii ''Budget'' \<mapsto> v))
         = (case field it ''Id'' of
              JInt n \<Rightarrow> fetch_budget E (IdInt n)
            | JBool b \<Rightarrow> fetch_budget E (IdBool b)
            | _ \<Rightarrow> None)"
    by (rule item_budget_no_stub [OF 1])
  have 3: "item_budget E (it(ascii ''Budget'' \<mapsto> v)) = item_budget E (it(ascii ''Budget'' := None))"
    unfolding 2 using item_budget_no_stub [OF stub_budget_absent, of E it] by simp
  have 4: "scrape_item E (it(ascii ''Budget'' \<mapsto> v)) = scrape_item E (it(ascii ''Budget'' := None))"
    by (rule scrape_item_budget_cong [OF 3])
  have 5: "item_budget E (it(ascii ''Budget'' \<mapsto> v)) = None" if "\<forall>cid. env_detail E cid = Failed"
    unfolding 2 using that by (simp add: fetch_budget_failed split: json.split)
  show "stub_budget E (it(ascii ''Budget'' \<mapsto> v)) = None
     \<and> item_budget E (it(ascii ''Budget'' \<mapsto> v))
         = (case field it ''Id'' of
              JInt n \<Rightarrow> fetch_budget E (IdInt n)
            | JBool b \<Rightarrow> fetch_budget E (IdBool b)
            | _ \<Rightarrow> None)
     \<and> item_budget E (it(ascii ''Budget'' \<mapsto> v)) = item_budget E (it(ascii ''Budget'' := None))
     \<and> scrape_item E (it(ascii ''Budget'' \<mapsto> v)) = scrape_item E (it(ascii ''Budget'' := None))
     \<and> ((\<forall>cid. env_detail E cid = Failed) \<longrightarrow> item_budget E (it(ascii ''Budget'' \<mapsto> v)) = None)"
    using 1 2 3 4 5 by blast
qed

theorem zero_budget_like_absent_witness:
  "stub_budget offline ([ascii ''Id'' \<mapsto> JInt 7, ascii ''Budget'' \<mapsto> JInt 0]) = None
   \<and> item_budget offline ([ascii ''Id'' \<mapsto> JInt 7, ascii ''Budget'' \<mapsto> JInt 0])
        = fetch_budget offline (IdInt 7)
   \<and> item_budget offline ([ascii ''Id'' \<mapsto> JInt 7, ascii ''Budget'' \<mapsto> JInt 0]) = None"
proof -
  have d: "\<forall>cid. env_detail offline cid = Failed" by (simp add: offline_def)
  have f: "field [ascii ''Id'' \<mapsto> JInt (7 :: int)] ''Id'' = JInt 7" by (simp add: field_def)
  from zero_budget_like_absent [of "JInt 0" offline "[ascii ''Id'' \<mapsto> JInt 7]"] d
  show ?thesis by (simp add: f fetch_budget_failed)
qed

lemma py_replace1_delete: "py_replace1 a [] s = filter (\<lambda>c. c \<noteq> a) s"
  by (induction s) (simp_all add: py_replace1_def)

lemma budget_clean_filter: "budget_clean s = filter (\<lambda>c. c \<noteq> 32 \<and> c \<noteq> 44) s"
  by (simp add: budget_clean_def py_replace1_delete conj_commute)

lemma budget_clean_examples:
  "budget_clean (ascii ''12,500.00'') = ascii ''12500.00''"
  "budget_clean (ascii ''12 500.00'') = ascii ''12500.00''"
  by (simp_all add: budget_clean_filter ascii_def)

lemma stub_budget_text:
  "s \<noteq> [] \<Longrightarrow> stub_budget E (it(ascii ''Budget'' \<mapsto> JStr s)) = env_float E (budget_clean s)"
  by (simp add: stub_budget_def)

lemma fetch_budget_text:
  assumes "env_detail E cid = Response st ct body js" "\<not> http_error st"
    "env_xml E body = Some root" "find_budget root = Some node" "xml_text node = Some t" "t \<noteq> []"
  shows "fetch_budget E cid = env_float E (budget_clean (py_strip t))"
  using assms by (simp add: fetch_budget_def)

lemma fetch_budget_none:
  assumes "env_detail E cid = Failed
     \<or> (\<exists>st ct body js. env_detail E cid = Response st ct body js
           \<and> (http_error st \<or> env_xml E body = None))"
  shows "fetch_budget E cid = None"
  using assms by (auto simp add: fetch_budget_def)

text \<open>
  Claim C7 (budget parsing), as the code has it. Before the numeric conversion, blanks
  (the character U+0020) and commas are removed from a budget text, and from the text
  of the detail endpoint also white space at both ends; so "12,500.00" and "12 500.00"
  are both converted as "12500.00". A text of the stub that does not convert gives no
  budget from the stub, and the item is treated as one without the field. When the
  detail request fails, returns an error status, or its body is not XML, the detail
  endpoint gives no budget. Neither function can raise: their results are options.
\<close>

theorem budget_parsing:
  "(s \<noteq> [] \<longrightarrow>
      stub_budget E (it(ascii ''Budget'' \<mapsto> JStr s))
        = env_float E (filter (\<lambda>c. c \<noteq> 32 \<and> c \<noteq> 44) s))
   \<and> (env_detail E cid = Response st ct body js \<and> \<not> http_error st \<and> env_xml E body = Some root
        \<and> find_budget root = Some node \<and> xml_text node = Some t \<and> t \<noteq> [] \<longrightarrow>
      fetch_budget E cid = env_float E (filter (\<lambda>c. c \<noteq> 32 \<and> c \<noteq> 44) (py_strip t)))
   \<and> stub_budget E (it(ascii ''Budget'' \<mapsto> JStr (ascii ''12,500.00'')))
        = env_float E (ascii ''12500.00'')
   \<and> stub_budget E (it(ascii ''Budget'' \<mapsto> JStr (ascii ''12 500.00'')))
        = env_float E (ascii ''12500.00'')
   \<and> (s \<noteq> [] \<and> env_float E (budget_clean s) = None \<longrightarrow>
        stub_budget E (it(ascii ''Budget'' \<mapsto> JStr s)) = None
        \<and> item_budget E (it(ascii ''Budget'' \<mapsto> JStr s))
            = item_budget E (it(ascii ''Budget'' := None)))
   \<and> (env_detail E cid = Failed
        \<or> (\<exists>st ct body js. env_detail E cid = Response st ct body js
              \<and> (http_error st \<or> env_xml E body = None)) \<longrightarrow>
      fetch_budget E cid = None)"
proof -
  have 1: "stub_budget E (it(ascii ''Budget'' \<mapsto> JStr s))
        = env_float E (filter (\<lambda>c. c \<noteq> 32 \<and> c \<noteq> 44) s)" if "s \<noteq> []"
    using that by (simp add: stub_budget_text budget_clean_filter)
  have 2: "fetch_budget E cid = env_float E (filter (\<lambda>c. c \<noteq> 32 \<and> c \<noteq> 44) (py_strip t))"
    if "env_detail E cid = Response st ct body js \<and> \<not> http_error st \<and> env_xml E body = Some root
        \<and> find_budget root = Some node \<and> xml_text node = Some t \<and> t \<noteq> []"
    using that fetch_budget_text [of E cid st ct body js root node t]
    by (simp add: budget_clean_filter)
  have 3: "stub_budget E (it(ascii ''Budget'' \<mapsto> JStr (ascii ''12,500.00'')))
        = env_float E (ascii ''12500.00'')"
    using stub_budget_text [of "ascii ''12,500.00''" E it]
    by (simp add: budget_clean_examples) (simp add: ascii_def)
  have 4: "stub_budget E (it(ascii ''Budget'' \<mapsto> JStr (ascii ''12 500.00'')))
        = env_float E (ascii ''12500.00'')"
    using stub_budget_text [of "ascii ''12 500.00''" E it]
    by (simp add: budget_clean_examples) (simp add: ascii_def)
  have 5: "stub_budget E (it(ascii ''Budget'' \<mapsto> JStr s)) = None
        \<and> item_budget E (it(ascii ''Budget'' \<mapsto> JStr s))
            = item_budget E (it(ascii ''Budget'' := None))"
    if a: "s \<noteq> [] \<and> env_float E (budget_clean s) = None"
  proof -
    have n: "stub_budget E (it(ascii ''Budget'' \<mapsto> JStr s)) = None"
      using a by (simp add: stub_budget_text)
    show ?thesis
      using n item_budget_no_stub [OF n] item_budget_no_stub [OF stub_budget_absent, of E it]
      by simp
  qed
  have 6: "fetch_budget E cid = None"
    if "env_detail E cid = Failed
        \<or> (\<exists>st ct body js. env_detail E cid = Response st ct body js
              \<and> (http_error st \<or> env_xml E body = None))"
    by (rule fetch_budget_none [OF that])
  show ?thesis using 1 2 3 4 5 6 by blast
qed

theorem budget_parsing_witness:
  "stub_budget offline [ascii ''Budget'' \<mapsto> JStr (ascii ''12,500.00'')] = Some 12500
   \<and> stub_budget offline [ascii ''Budget'' \<mapsto> JStr (ascii ''12 500.00'')] = Some 12500
   \<and> stub_budget offline [ascii ''Budget'' \<mapsto> JStr (ascii ''n/a'')] = None
   \<and> fetch_budget offline (IdInt 7) = None"
proof -
  have f: "env_float offline (ascii ''12500.00'') = Some 12500"
    and g: "env_float offline (budget_clean (ascii ''n/a'')) = None"
    and d: "env_detail offline (IdInt 7) = Failed"
    and n: "ascii ''n/a'' \<noteq> []"
    by (simp_all add: offline_def budget_clean_filter ascii_def)
  from budget_parsing [of "ascii ''n/a''" offline Map.empty "IdInt 7"] f g d n
  show ?thesis by (simp add: budget_clean_filter)
qed

text \<open>
  White space other than the blank stays: a tab inside a budget text survives the
  cleaning (and trimming), and the text then does not convert, while the same digits
  with a blank do.
\<close>

theorem budget_whitespace_counterexample:
  "py_isspace 9
   \<and> budget_clean (ascii ''12'' @ [9] @ ascii ''500.00'') = ascii ''12'' @ [9] @ ascii ''500.00''
   \<and> py_strip (ascii ''12'' @ [9] @ ascii ''500.00'') = ascii ''12'' @ [9] @ ascii ''500.00''
   \<and> stub_budget offline [ascii ''Budget'' \<mapsto> JStr (ascii ''12'' @ [9] @ ascii ''500.00'')] = None
   \<and> stub_budget offline [ascii ''Budget'' \<mapsto> JStr (ascii ''12 500.00'')] = Some 12500"
  by (simp add: py_isspace_def budget_clean_filter py_strip_def ascii_def stub_budget_def offline_def)

lemma scrape_api_early:
  assumes "env_stub E = Failed
     \<or> (\<exists>s ct body js. env_stub E = Response s ct body js
           \<and> (http_error s
               \<or> \<not> py_in (ascii ''application/json'') (case ct of None \<Rightarrow> [] | Some c \<Rightarrow> c)))"
  shows "scrape_api E = Inr ([], [])"
  using assms by (auto simp add: scrape_api_def)

text \<open>
  Claim C6 (graceful degradation of the fetcher), as the code has it. When the request
  raises, the status is a client or server error (400 to 599), or the \<open>Content-Type\<close>
  header does not contain \<open>application/json\<close>, \<open>scrape_api\<close> does not raise: it returns the
  empty list and writes the empty list, and the run goes on as with no API rows.
\<close>

theorem stub_fetch_degrades:
  "(env_stub E = Failed
      \<or> (\<exists>s ct body js. env_stub E = Response s ct body js
            \<and> (http_error s
                \<or> \<not> py_in (ascii ''application/json'') (case ct of None \<Rightarrow> [] | Some c \<Rightarrow> c))))
   \<longrightarrow> scrape_api E = Inr ([], [])
     \<and> ingest E U parse emb files
         = (case pdf_loop U parse emb ([], [], []) files of
              Inl e \<Rightarrow> Inl e
            | Inr (pdf_rows, idx, meta) \<Rightarrow>
                (case merge (env_today E) pdf_rows [] of
                   Inl e \<Rightarrow> Inl e
                 | Inr merged \<Rightarrow>
                     Inr \<lparr>fresh_json = [], pdf_json = pdf_rows, index_file = idx,
                          meta_file = meta, merged_json = merged\<rparr>))"
proof
  assume "env_stub E = Failed
      \<or> (\<exists>s ct body js. env_stub E = Response s ct body js
            \<and> (http_error s
                \<or> \<not> py_in (ascii ''application/json'') (case ct of None \<Rightarrow> [] | Some c \<Rightarrow> c)))"
  then have s: "scrape_api E = Inr ([], [])" by (rule scrape_api_early)
  then show "scrape_api E = Inr ([], [])
     \<and> ingest E U parse emb files
         = (case pdf_loop U parse emb ([], [], []) files of
              Inl e \<Rightarrow> Inl e
            | Inr (pdf_rows, idx, meta) \<Rightarrow>
                (case merge (env_today E) pdf_rows [] of
                   Inl e \<Rightarrow> Inl e
                 | Inr merged \<Rightarrow>
                     Inr \<lparr>fresh_json = [], pdf_json = pdf_rows, index_file = idx,
                          meta_file = meta, merged_json = merged\<rparr>))"
    by (simp add: ingest_def)
qed

theorem stub_fetch_degrades_witness:
  "env_stub offline = Failed
   \<and> scrape_api offline = Inr ([], [])
   \<and> ingest offline ascii_db (\<lambda>s. None) (length :: ustr \<Rightarrow> nat) []
       = Inr \<lparr>fresh_json = [], pdf_json = [], index_file = [], meta_file = [], merged_json = []\<rparr>"
proof -
  have f: "env_stub offline = Failed" by (simp add: offline_def)
  have m: "merge (env_today offline) [] ([] :: int fresh_row list) = Inr []"
    by (simp add: merge_def build_merged_def sort_by_deadline_def)
  from stub_fetch_degrades [of offline ascii_db "\<lambda>s. None" "length :: ustr \<Rightarrow> nat" "[]"] f m
  show ?thesis by simp
qed

text \<open>
  A status outside 200 to 299 is not enough: \<open>raise_for_status\<close> lets 304 pass, and with
  a JSON content type and a body that is not JSON the function raises.
\<close>

theorem stub_fetch_status_counterexample:
  "\<not> (200 \<le> (304 :: nat) \<and> (304 :: nat) < 300)
   \<and> scrape_api (offline\<lparr>env_stub := Response 304 (Some (ascii ''application/json'')) [] None\<rparr>)
       = Inl JSONDecodeError"
  by (simp add: scrape_api_def http_error_def ascii_def)

lemma scrape_item_cases:
  fixes E :: "'f env" and it :: "'f item"
  defines "c \<equiv> py_or E (field it ''Code'') (py_or E (field it ''callCode'') (JStr []))"
    and "d \<equiv> iso_to_date E (py_or E (field it ''deadline_date'') (field it ''EndDate''))"
  shows "(\<forall>s. c \<noteq> JStr s) \<Longrightarrow> scrape_item E it = Inl AttributeError"
    and "c = JStr s \<Longrightarrow> scrape_item E it = Inr None
           \<longleftrightarrow> py_strip s = [] \<or> d = None \<or> (\<exists>dd. d = Some dd \<and> year dd < year (env_today E))"
    and "scrape_item E it = Inr (Some row)
           \<Longrightarrow> \<exists>s. c = JStr s \<and> code row = normalize_code (py_strip s)"
proof -
  show "scrape_item E it = Inl AttributeError" if "\<forall>s. c \<noteq> JStr s"
    using that unfolding c_def
    by (cases "py_or E (field it ''Code'') (py_or E (field it ''callCode'') (JStr []))")
      (simp_all add: scrape_item_def strip_of_def)
  show "scrape_item E it = Inr None
           \<longleftrightarrow> py_strip s = [] \<or> d = None \<or> (\<exists>dd. d = Some dd \<and> year dd < year (env_today E))"
    if "c = JStr s"
    using that unfolding c_def d_def
    by (auto simp add: scrape_item_def strip_of_def Let_def split: option.splits sum.splits)
  show "\<exists>s. c = JStr s \<and> code row = normalize_code (py_strip s)"
    if "scrape_item E it = Inr (Some row)"
    using that unfolding c_def
    by (cases "py_or E (field it ''Code'') (py_or E (field it ''callCode'') (JStr []))")
      (auto simp add: scrape_item_def strip_of_def Let_def fresh_row_of_def
        split: option.splits sum.splits if_splits)
qed

lemma normalize_code_map:
  "normalize_code s = map (\<lambda>ch. if ch = 47 \<or> ch = 92 then 95 else ch) s"
  by (induction s) (simp_all add: normalize_code_def py_replace1_def)

text \<open>
  Claim C5 (filtering the items of the stub list), as the code has it. Let \<open>c\<close> be the
  first of the fields \<open>Code\<close> and \<open>callCode\<close> that is truthy (the empty text when neither
  is), and \<open>d\<close> what \<open>iso_to_date\<close> makes of the first of \<open>deadline_date\<close> and \<open>EndDate\<close> that is
  truthy. When \<open>c\<close> is not a text, the turn raises. Otherwise the item is discarded
  exactly when \<open>c\<close> is blank after trimming, \<open>d\<close> is no date, or the year of \<open>d\<close> is before
  the current year, and a discarded item adds no row. The code of a retained item is the
  trimmed \<open>c\<close> with every slash and backslash replaced by an underscore.
\<close>

theorem stub_item_filter:
  fixes E :: "'f env" and it :: "'f item"
  defines "c \<equiv> py_or E (field it ''Code'') (py_or E (field it ''callCode'') (JStr []))"
    and "d \<equiv> iso_to_date E (py_or E (field it ''deadline_date'') (field it ''EndDate''))"
  shows "((\<forall>s. c \<noteq> JStr s) \<longrightarrow> scrape_item E it = Inl AttributeError)
     \<and> (\<forall>s. c = JStr s \<longrightarrow>
          (scrape_item E it = Inr None
             \<longleftrightarrow> py_strip s = [] \<or> d = None
                 \<or> (\<exists>dd. d = Some dd \<and> year dd < year (env_today E))))
     \<and> (\<forall>row. scrape_item E it = Inr (Some row) \<longrightarrow>
          (\<exists>s. c = JStr s
             \<and> code row = map (\<lambda>ch. if ch = 47 \<or> ch = 92 then 95 else ch) (py_strip s)))
     \<and> (\<forall>kvs xs. it = obj_map kvs \<and> scrape_item E it = Inr None \<longrightarrow>
          scrape_rows E (JObj kvs # xs) = scrape_rows E xs)"
proof -
  have 1: "(\<forall>s. c \<noteq> JStr s) \<longrightarrow> scrape_item E it = Inl AttributeError"
    unfolding c_def using scrape_item_cases(1) [of E it] by blast
  have 2: "\<forall>s. c = JStr s \<longrightarrow>
          (scrape_item E it = Inr None
             \<longleftrightarrow> py_strip s = [] \<or> d = None
                 \<or> (\<exists>dd. d = Some dd \<and> year dd < year (env_today E)))"
    unfolding c_def d_def using scrape_item_cases(2) [of E it] by blast
  have 3: "\<forall>row. scrape_item E it = Inr (Some row) \<longrightarrow>
          (\<exists>s. c = JStr s
             \<and> code row = map (\<lambda>ch. if ch = 47 \<or> ch = 92 then 95 else ch) (py_strip s))"
  proof (intro allI impI)
    fix row
    assume "scrape_item E it = Inr (Some row)"
    from scrape_item_cases(3) [OF this]
    obtain s where "c = JStr s" and "code row = normalize_code (py_strip s)"
      unfolding c_def by blast
    then show "\<exists>s. c = JStr s
             \<and> code row = map (\<lambda>ch. if ch = 47 \<or> ch = 92 then 95 else ch) (py_strip s)"
      by (simp add: normalize_code_map)
  qed
  have 4: "\<forall>kvs xs. it = obj_map kvs \<and> scrape_item E it = Inr None \<longrightarrow>
          scrape_rows E (JObj kvs # xs) = scrape_rows E xs"
  proof (intro allI impI)
    fix kvs xs
    assume "it = obj_map kvs \<and> scrape_item E it = Inr None"
    then have n: "scrape_item E (obj_map kvs) = Inr None" by blast
    show "scrape_rows E (JObj kvs # xs) = scrape_rows E xs"
      by (cases "scrape_rows E xs") (simp_all add: n)
  qed
  show ?thesis using 1 2 3 4 by blast
qed

lemmas eval_item =
  scrape_item_def field_def py_or_def truthy_def strip_of_def iso_to_date_def offline_def
  ascii_def py_strip_def py_isspace_def item_budget_def stub_budget_def fetch_budget_def
  fresh_row_of_def normalize_code_def py_replace1_def

theorem stub_item_filter_witness:
  "(\<exists>row. scrape_item offline
             [ascii ''Code'' \<mapsto> JStr (ascii '' A/B'' @ [92] @ ascii ''C ''),
              ascii ''EndDate'' \<mapsto> JStr (ascii ''2030-01-01'')] = Inr (Some row)
          \<and> code row = ascii ''A_B_C'')
   \<and> scrape_item offline
        [ascii ''Code'' \<mapsto> JStr (ascii ''A''), ascii ''EndDate'' \<mapsto> JStr (ascii ''n/a'')]
       = Inr None"
proof -
  let ?it = "[ascii ''Code'' \<mapsto> JStr (ascii '' A/B'' @ [92] @ ascii ''C ''),
              ascii ''EndDate'' \<mapsto> (JStr (ascii ''2030-01-01'') :: int json)]"
  let ?it2 = "[ascii ''Code'' \<mapsto> JStr (ascii ''A''),
               ascii ''EndDate'' \<mapsto> (JStr (ascii ''n/a'') :: int json)]"
  have c: "py_or offline (field ?it ''Code'') (py_or offline (field ?it ''callCode'') (JStr []))
      = JStr (ascii '' A/B'' @ [92] @ ascii ''C '')"
    by (simp add: field_def py_or_def truthy_def ascii_def)
  obtain row where r: "scrape_item offline ?it = Inr (Some row)"
    by (simp add: eval_item)
  from stub_item_filter [of offline ?it] r c
  have "code row = map (\<lambda>ch. if ch = 47 \<or> ch = 92 then 95 else ch)
                     (py_strip (ascii '' A/B'' @ [92] @ ascii ''C ''))"
    by auto
  then have k: "code row = ascii ''A_B_C''"
    by (simp add: py_strip_def py_isspace_def ascii_def)
  have c2: "py_or offline (field ?it2 ''Code'') (py_or offline (field ?it2 ''callCode'') (JStr []))
      = JStr (ascii ''A'')"
    by (simp add: field_def py_or_def truthy_def ascii_def)
  have d2: "iso_to_date offline (py_or offline (field ?it2 ''deadline_date'') (field ?it2 ''EndDate''))
      = None"
    by (simp add: field_def py_or_def truthy_def iso_to_date_def offline_def ascii_def)
  from stub_item_filter [of offline ?it2] c2 d2
  have "scrape_item offline ?it2 = Inr None" by simp
  with r k show ?thesis by blast
qed

text \<open>
  The rule of the specification differs on items whose first field is set but unusable:
  an unreadable \<open>deadline_date\<close> hides a readable \<open>EndDate\<close>, and a blank \<open>Code\<close> hides a
  \<open>callCode\<close>; both items are discarded although the rule keeps them.
\<close>

theorem stub_item_filter_counterexample:
  "scrape_item offline
     [ascii ''Code'' \<mapsto> JStr (ascii ''A''), ascii ''deadline_date'' \<mapsto> JStr (ascii ''n/a''),
      ascii ''EndDate'' \<mapsto> JStr (ascii ''2030-01-01'')] = Inr None
   \<and> \<not> spec_discards offline
     [ascii ''Code'' \<mapsto> JStr (ascii ''A''), ascii ''deadline_date'' \<mapsto> JStr (ascii ''n/a''),
      ascii ''EndDate'' \<mapsto> JStr (ascii ''2030-01-01'')]
   \<and> scrape_item offline
     [ascii ''Code'' \<mapsto> JStr (ascii ''  ''), ascii ''callCode'' \<mapsto> JStr (ascii ''X''),
      ascii ''EndDate'' \<mapsto> JStr (ascii ''2030-01-01'')] = Inr None
   \<and> \<not> spec_discards offline
     [ascii ''Code'' \<mapsto> JStr (ascii ''  ''), ascii ''callCode'' \<mapsto> JStr (ascii ''X''),
      ascii ''EndDate'' \<mapsto> JStr (ascii ''2030-01-01'')]"
  by (simp add: eval_item spec_discards_def spec_has_code_def spec_deadline_def)

section \<open>Properties of the whole run\<close>

text \<open>
  What the first two parts hand to the merge. Every row of the API stage is written
  from a code, a title, a date that \<open>fromisoformat\<close> returned and whose year is not before
  the current year, and a budget; every row of the PDF stage is written from a code
  and a date that \<open>dateparser.parse\<close> returned.
\<close>

lemma scrape_item_row:
  assumes "scrape_item E it = Inr (Some row)"
  shows "\<exists>c t d b s. row = fresh_row_of (env_today E) c t d b
           \<and> year (env_today E) \<le> year d \<and> env_fromiso E s = Some d"
proof -
  let ?c = "strip_of (py_or E (field it ''Code'') (py_or E (field it ''callCode'') (JStr [])))"
  let ?dv = "py_or E (field it ''deadline_date'') (field it ''EndDate'')"
  let ?t = "strip_of (py_or E (field it ''call_title'') (py_or E (field it ''Title'') (JStr [])))"
  obtain raw where raw: "?c = Inr raw"
    using assms by (cases ?c) (simp_all add: scrape_item_def)
  have ne: "raw \<noteq> []" using assms raw by (auto simp add: scrape_item_def)
  obtain ddl where ddl: "iso_to_date E ?dv = Some ddl"
    using assms raw ne by (cases "iso_to_date E ?dv") (simp_all add: scrape_item_def)
  have yr: "\<not> year ddl < year (env_today E)"
    using assms raw ne ddl by (auto simp add: scrape_item_def)
  obtain t where t: "?t = Inr t"
    using assms raw ne ddl yr by (cases ?t) (simp_all add: scrape_item_def Let_def)
  have row: "row = fresh_row_of (env_today E) (normalize_code raw) t ddl (item_budget E it)"
    using assms raw ne ddl yr t by (simp add: scrape_item_def Let_def)
  obtain s where "env_fromiso E s = Some ddl"
    using ddl by (cases ?dv) (simp_all add: iso_to_date_def)
  then show ?thesis using row yr by (metis not_less)
qed

lemma scrape_rows_rows:
  assumes "scrape_rows E xs = Inr rows"
  shows "\<exists>fds. rows = fresh_rows_of (env_today E) fds
           \<and> (\<forall>(c, t, d, b) \<in> set fds. year (env_today E) \<le> year d
                  \<and> (\<exists>s. env_fromiso E s = Some d))"
  using assms
proof (induction xs arbitrary: rows)
  case Nil
  then have "rows = fresh_rows_of (env_today E) []" by (simp add: fresh_rows_of_def)
  then show ?case by (intro exI [of _ "[]"]) simp
next
  case (Cons x xs)
  from Cons.prems obtain kvs where x: "x = JObj kvs"
    by (cases x) simp_all
  from Cons.prems x obtain r where r: "scrape_item E (obj_map kvs) = Inr r"
    by (cases "scrape_item E (obj_map kvs)") simp_all
  from Cons.prems x r obtain rest where rest: "scrape_rows E xs = Inr rest"
    by (cases "scrape_rows E xs") simp_all
  have rows: "rows = (case r of None \<Rightarrow> [] | Some row \<Rightarrow> [row]) @ rest"
    using Cons.prems x r rest by simp
  from Cons.IH [OF rest] obtain fds where
    f: "rest = fresh_rows_of (env_today E) fds"
    and p: "\<forall>(c, t, d, b) \<in> set fds. year (env_today E) \<le> year d
                  \<and> (\<exists>s. env_fromiso E s = Some d)"
    by blast
  show ?case
  proof (cases r)
    case None
    then show ?thesis using rows f p by auto
  next
    case (Some row)
    from scrape_item_row [OF r [unfolded Some]]
    obtain c t d b s where row: "row = fresh_row_of (env_today E) c t d b"
      and y: "year (env_today E) \<le> year d" and s: "env_fromiso E s = Some d"
      by blast
    have "rows = fresh_rows_of (env_today E) ((c, t, d, b) # fds)"
      using rows Some row f by (simp add: fresh_rows_of_def)
    moreover have "\<forall>(c, t, d, b) \<in> set ((c, t, d, b) # fds). year (env_today E) \<le> year d
                  \<and> (\<exists>s. env_fromiso E s = Some d)"
      using p y s by auto
    ultimately show ?thesis by blast
  qed
qed

lemma scrape_api_rows:
  assumes "scrape_api E = Inr (rows, written)"
  shows "written = rows \<and> (\<exists>fds. rows = fresh_rows_of (env_today E) fds
           \<and> (\<forall>(c, t, d, b) \<in> set fds. year (env_today E) \<le> year d
                  \<and> (\<exists>s. env_fromiso E s = Some d)))"
proof -
  have e: "\<exists>fds. [] = fresh_rows_of (env_today E) fds
           \<and> (\<forall>(c, t, d, b) \<in> set fds. year (env_today E) \<le> year d
                  \<and> (\<exists>s. env_fromiso E s = Some d))"
    by (intro exI [of _ "[]"]) (simp add: fresh_rows_of_def)
  show ?thesis
  proof (cases "\<exists>items. scrape_rows E items = Inr rows \<and> written = rows")
    case True
    then show ?thesis using scrape_rows_rows by blast
  next
    case False
    then have "rows = [] \<and> written = []"
      using assms
      by (auto simp add: scrape_api_def split: http_outcome.splits if_splits option.splits sum.splits)
    then show ?thesis using e by simp
  qed
qed

lemma parse_dates_sound:
  "parse_dates parse ss = Inr ds \<Longrightarrow> \<forall>d \<in> set ds. \<exists>s. parse s = Some d"
proof (induction ss arbitrary: ds)
  case Nil
  then show ?case by simp
next
  case (Cons s ss)
  from Cons.prems obtain d where d: "parse s = Some d"
    by (cases "parse s") simp_all
  from Cons.prems d obtain ds' where ds': "parse_dates parse ss = Inr ds'"
    by (cases "parse_dates parse ss") simp_all
  have "ds = d # ds'" using Cons.prems d ds' by simp
  then show ?case using Cons.IH [OF ds'] d by auto
qed

lemma mine_dates_sound:
  assumes "mine_dates U parse t = Inr ds"
  shows "\<forall>d \<in> set ds. \<exists>s. parse s = Some d"
proof -
  obtain all where a: "parse_dates parse (date_strings U t) = Inr all"
    using assms by (cases "parse_dates parse (date_strings U t)") (simp_all add: mine_dates_def)
  then have "ds = take 2 (sort_key ymd (remdups all))"
    using assms by (simp add: mine_dates_def)
  then have "set ds \<subseteq> set all"
    using set_take_subset [of 2 "sort_key ymd (remdups all)"] by simp
  then show ?thesis using parse_dates_sound [OF a] by blast
qed

lemma pdf_step_rows:
  assumes "pdf_step U parse emb st f = Inr st'"
  shows "\<exists>pds. fst st' = fst st @ pdf_rows_of pds \<and> (\<forall>(c, d) \<in> set pds. \<exists>s. parse s = Some d)"
proof -
  obtain ds where ds: "mine_dates U parse (doc_text f) = Inr ds"
    using assms by (cases "mine_dates U parse (doc_text f)") (simp_all add: pdf_step_def Let_def)
  obtain im where im: "chunk_loop emb (pdf_name f) (doc_text f) CHUNK_SZ (snd st) = Inr im"
    using assms ds
    by (cases "chunk_loop emb (pdf_name f) (doc_text f) CHUNK_SZ (snd st)")
      (simp_all add: pdf_step_def Let_def)
  have "fst st' = fst st @ map (pdf_row_of (normalize_code (pdf_stem f))) ds"
    using assms ds im by (auto simp add: pdf_step_def Let_def)
  then have "fst st' = fst st @ pdf_rows_of (map (\<lambda>d. (normalize_code (pdf_stem f), d)) ds)"
    by (simp add: pdf_rows_of_def comp_def)
  moreover have "\<forall>(c, d) \<in> set (map (\<lambda>d. (normalize_code (pdf_stem f), d)) ds). \<exists>s. parse s = Some d"
    using mine_dates_sound [OF ds] by auto
  ultimately show ?thesis by blast
qed

lemma pdf_loop_rows:
  assumes "pdf_loop U parse emb st fs = Inr st'"
  shows "\<exists>pds. fst st' = fst st @ pdf_rows_of pds \<and> (\<forall>(c, d) \<in> set pds. \<exists>s. parse s = Some d)"
  using assms
proof (induction fs arbitrary: st)
  case Nil
  then have "fst st' = fst st @ pdf_rows_of []" by (simp add: pdf_rows_of_def)
  then show ?case by (intro exI [of _ "[]"]) simp
next
  case (Cons f fs)
  from Cons.prems obtain st1 where 1: "pdf_step U parse emb st f = Inr st1"
    and 2: "pdf_loop U parse emb st1 fs = Inr st'"
    by (cases "pdf_step U parse emb st f") simp_all
  from pdf_step_rows [OF 1] obtain p1 where
    a: "fst st1 = fst st @ pdf_rows_of p1" and b: "\<forall>(c, d) \<in> set p1. \<exists>s. parse s = Some d"
    by blast
  from Cons.IH [OF 2] obtain p2 where
    c: "fst st' = fst st1 @ pdf_rows_of p2" and d: "\<forall>(c, d) \<in> set p2. \<exists>s. parse s = Some d"
    by blast
  have "fst st' = fst st @ pdf_rows_of (p1 @ p2)" using a c by (simp add: pdf_rows_of_def)
  moreover have "\<forall>(c, d) \<in> set (p1 @ p2). \<exists>s. parse s = Some d" using b d by auto
  ultimately show ?case by blast
qed


text \<open>
  A run that ends without an exception has written rows of that form, and its merged
  dataset is what the merge returns for them. The dates are printable when the parsers
  return dates of the calendar and the years have four digits.
\<close>

lemma ingest_shape:
  assumes iso: "\<forall>s d. env_fromiso E s = Some d \<longrightarrow> valid_date d"
    and prs: "\<forall>s d. parse s = Some d \<longrightarrow> printable d"
    and yr: "1000 \<le> year (env_today E)"
    and run: "ingest E U parse emb files = Inr A"
  shows "\<exists>pds fds. pdf_json A = pdf_rows_of pds \<and> fresh_json A = fresh_rows_of (env_today E) fds
     \<and> (\<forall>(c, d) \<in> set pds. printable d) \<and> (\<forall>(c, t, d, b) \<in> set fds. printable d)
     \<and> merge (env_today E) (pdf_rows_of pds) (fresh_rows_of (env_today E) fds)
         = Inr (merged_json A)"
proof -
  obtain rows written where s: "scrape_api E = Inr (rows, written)"
    using run by (cases "scrape_api E") (auto simp add: ingest_def)
  obtain pdf_rows idx meta where p: "pdf_loop U parse emb ([], [], []) files = Inr (pdf_rows, idx, meta)"
    using run s
    by (cases "pdf_loop U parse emb ([], [], []) files") (auto simp add: ingest_def)
  obtain merged where m: "merge (env_today E) pdf_rows rows = Inr merged"
    using run s p by (cases "merge (env_today E) pdf_rows rows") (auto simp add: ingest_def)
  have A: "A = \<lparr>fresh_json = written, pdf_json = pdf_rows, index_file = idx,
                 meta_file = meta, merged_json = merged\<rparr>"
    using run s p m by (simp add: ingest_def)
  from scrape_api_rows [OF s] obtain fds where w: "written = rows"
    and f: "rows = fresh_rows_of (env_today E) fds"
    and fp: "\<forall>(c, t, d, b) \<in> set fds. year (env_today E) \<le> year d
                  \<and> (\<exists>s. env_fromiso E s = Some d)"
    by blast
  from pdf_loop_rows [OF p] obtain pds where q: "pdf_rows = pdf_rows_of pds"
    and pp: "\<forall>(c, d) \<in> set pds. \<exists>s. parse s = Some d"
    by auto
  have 1: "\<forall>(c, d) \<in> set pds. printable d" using pp prs by blast
  have 2: "\<forall>(c, t, d, b) \<in> set fds. printable d"
  proof -
    have "printable d" if "(c, t, d, b) \<in> set fds" for c t d b
    proof -
      from fp that have y: "year (env_today E) \<le> year d" and "\<exists>s. env_fromiso E s = Some d"
        by auto
      then have "valid_date d" using iso by blast
      then show ?thesis using y yr by (simp add: printable_def)
    qed
    then show ?thesis by auto
  qed
  show ?thesis
    using A w f q 1 2 m by (intro exI [of _ pds] exI [of _ fds]) simp
qed


text \<open>
  Two runs, evaluated. In the first the directory holds one PDF, \<open>X.pdf\<close>, with the text
  \<open>Deadline: 10 January 2025\<close>, and the stub lists the code \<open>X\<close> with the end date
  2025-02-01. In the second the directory is empty and the stub lists the code \<open>PRIMA\<close>
  with the end date 2026-06-01 and the budget 50000.
\<close>

lemma jan_kw: "finditer KW_RE ascii_db (ascii ''Deadline: 10 January 2025'') = [(0, 8)]"
  by (simp add: eval_regex)

lemma jan_window:
  "window (ascii ''Deadline: 10 January 2025'') (0, 8) = ascii ''Deadline: 10 January 2025''"
  by (simp add: window_def WIN_def py_slice_def ascii_def)

lemma jan_date: "finditer DATE_RE ascii_db (ascii ''Deadline: 10 January 2025'') = [(10, 25)]"
  by (simp add: eval_regex)

lemma jan_strings:
  "date_strings ascii_db (ascii ''Deadline: 10 January 2025'') = [ascii ''10 January 2025'']"
  by (simp add: date_strings_def jan_kw jan_window jan_date) (simp add: py_slice_def ascii_def)

lemma printable_examples:
  "printable \<lparr>year = 2025, month = 1, day = 10\<rparr>"
  "printable \<lparr>year = 2025, month = 2, day = 1\<rparr>"
  "printable \<lparr>year = 2025, month = 1, day = 5\<rparr>"
  "printable \<lparr>year = 2026, month = 6, day = 1\<rparr>"
  by (simp_all add: printable_def valid_date_def days_in_month_def)

lemma strftime_examples:
  "strftime_dbY \<lparr>year = 2025, month = 2, day = 1\<rparr> = ascii ''01 Feb 2025''"
  "strftime_dbY \<lparr>year = 2026, month = 6, day = 1\<rparr> = ascii ''01 Jun 2026''"
  by (simp_all add: strftime_dbY_def digit_def month_names_def ascii_def)

lemma x_run:
  "ingest
     (offline\<lparr>env_stub := Response 200 (Some (ascii ''application/json'')) []
                  (Some (JArr [JObj [(ascii ''Code'', JStr (ascii ''X'')),
                                     (ascii ''EndDate'', JStr (ascii ''2025-02-01''))]])),
              env_fromiso := (\<lambda>s. if s = ascii ''2025-02-01''
                                    then Some \<lparr>year = 2025, month = 2, day = 1\<rparr> else None)\<rparr>)
     ascii_db
     (\<lambda>s. if s = ascii ''10 January 2025'' then Some \<lparr>year = 2025, month = 1, day = 10\<rparr> else None)
     (length :: ustr \<Rightarrow> nat)
     [\<lparr>pdf_name = ascii ''X.pdf'', pdf_stem = ascii ''X'',
       pdf_pages = [\<lparr>text_layer = ascii ''Deadline: 10 January 2025'', ocr_text = []\<rparr>]\<rparr>]
   = Inr \<lparr>fresh_json = [fresh_row_of \<lparr>year = 2025, month = 1, day = 20\<rparr> (ascii ''X'') []
                            \<lparr>year = 2025, month = 2, day = 1\<rparr> None],
          pdf_json = [pdf_row_of (ascii ''X'') \<lparr>year = 2025, month = 1, day = 10\<rparr>],
          index_file = [25],
          meta_file = [\<lparr>meta_text = ascii ''Deadline: 10 January 2025'',
                        meta_source = ascii ''X.pdf''\<rparr>],
          merged_json = [\<lparr>code = ascii ''X'', deadline = ascii ''01 Feb 2025'',
                          status = OPEN, budget = None\<rparr>]\<rparr>"
proof -
  let ?T = "\<lparr>year = 2025, month = 1, day = 20\<rparr>"
  let ?jan = "\<lparr>year = 2025, month = 1, day = 10\<rparr>"
  let ?feb = "\<lparr>year = 2025, month = 2, day = 1\<rparr>"
  let ?E = "offline\<lparr>env_stub := Response 200 (Some (ascii ''application/json'')) []
                  (Some (JArr [JObj [(ascii ''Code'', JStr (ascii ''X'')),
                                     (ascii ''EndDate'', JStr (ascii ''2025-02-01''))]])),
              env_fromiso := (\<lambda>s. if s = ascii ''2025-02-01'' then Some ?feb else None)\<rparr>"
  let ?P = "\<lambda>s. if s = ascii ''10 January 2025'' then Some ?jan else None"
  let ?f = "\<lparr>pdf_name = ascii ''X.pdf'', pdf_stem = ascii ''X'',
       pdf_pages = [\<lparr>text_layer = ascii ''Deadline: 10 January 2025'', ocr_text = []\<rparr>]\<rparr>"
  have it: "scrape_item ?E (obj_map [(ascii ''Code'', JStr (ascii ''X'')),
                                     (ascii ''EndDate'', JStr (ascii ''2025-02-01''))])
      = Inr (Some (fresh_row_of ?T (ascii ''X'') [] ?feb None))"
    by (simp add: scrape_item_def field_def py_or_def truthy_def strip_of_def iso_to_date_def
        offline_def ascii_def py_strip_def py_isspace_def item_budget_def stub_budget_def
        normalize_code_def py_replace1_def obj_map_def)
  have today: "env_today ?E = ?T" by (simp add: offline_def)
  have s: "scrape_api ?E = Inr ([fresh_row_of ?T (ascii ''X'') [] ?feb None],
                                [fresh_row_of ?T (ascii ''X'') [] ?feb None])"
  proof -
    have ct: "py_in (ascii ''application/json'') (ascii ''application/json'')"
      by (simp add: ascii_def)
    show ?thesis
      by (simp add: scrape_api_def http_error_def ct json_items_def it)
  qed
  have t: "doc_text ?f = ascii ''Deadline: 10 January 2025''"
    by (simp add: doc_text_def page_text_def py_strip_def py_isspace_def ascii_def)
  have m: "mine_dates ascii_db ?P (ascii ''Deadline: 10 January 2025'') = Inr [?jan]"
    by (simp add: mine_dates_def jan_strings)
  have c: "chunk_loop (length :: ustr \<Rightarrow> nat) (ascii ''X.pdf'') (ascii ''Deadline: 10 January 2025'')
             CHUNK_SZ ([], [])
      = Inr ([25], [\<lparr>meta_text = ascii ''Deadline: 10 January 2025'', meta_source = ascii ''X.pdf''\<rparr>])"
    by (simp add: chunk_loop_def CHUNK_SZ_def ascii_def range_from.simps chunk_step_def
        py_slice_def py_strip_def py_isspace_def)
  have n: "normalize_code (ascii ''X'') = ascii ''X''"
    by (simp add: normalize_code_def py_replace1_def ascii_def)
  have p: "pdf_loop ascii_db ?P (length :: ustr \<Rightarrow> nat) ([], [], []) [?f]
      = Inr ([pdf_row_of (ascii ''X'') ?jan], [25],
             [\<lparr>meta_text = ascii ''Deadline: 10 January 2025'', meta_source = ascii ''X.pdf''\<rparr>])"
    by (simp add: pdf_step_def t m c n)
  have g: "merge ?T [pdf_row_of (ascii ''X'') ?jan]
             [fresh_row_of ?T (ascii ''X'') [] ?feb (None :: int option)]
      = Inr [\<lparr>code = ascii ''X'', deadline = strftime_dbY ?feb, status = OPEN, budget = None\<rparr>]"
    by (simp add: merge_def pdf_row_of_def fresh_row_of_def to_d_strftime printable_examples
        api_step_def build_merged_def sort_by_deadline_def status_of_def ymd_def
        del: One_nat_def)
  show ?thesis
    unfolding ingest_def s p by (simp add: today g strftime_examples del: One_nat_def)
qed


lemma prima_run:
  "ingest
     (offline\<lparr>env_stub := Response 200 (Some (ascii ''application/json'')) []
                  (Some (JArr [JObj [(ascii ''Code'', JStr (ascii ''PRIMA'')),
                                     (ascii ''EndDate'', JStr (ascii ''2026-06-01'')),
                                     (ascii ''Budget'', JInt 50000)]])),
              env_fromiso := (\<lambda>s. if s = ascii ''2026-06-01''
                                    then Some \<lparr>year = 2026, month = 6, day = 1\<rparr> else None)\<rparr>)
     ascii_db (\<lambda>s. None) (length :: ustr \<Rightarrow> nat) []
   = Inr \<lparr>fresh_json = [fresh_row_of \<lparr>year = 2025, month = 1, day = 20\<rparr> (ascii ''PRIMA'') []
                            \<lparr>year = 2026, month = 6, day = 1\<rparr> (Some 50000)],
          pdf_json = [],
          index_file = [],
          meta_file = [],
          merged_json = [\<lparr>code = ascii ''PRIMA'', deadline = ascii ''01 Jun 2026'',
                          status = OPEN, budget = Some 50000\<rparr>]\<rparr>"
proof -
  let ?T = "\<lparr>year = 2025, month = 1, day = 20\<rparr>"
  let ?jun = "\<lparr>year = 2026, month = 6, day = 1\<rparr>"
  let ?E = "offline\<lparr>env_stub := Response 200 (Some (ascii ''application/json'')) []
                  (Some (JArr [JObj [(ascii ''Code'', JStr (ascii ''PRIMA'')),
                                     (ascii ''EndDate'', JStr (ascii ''2026-06-01'')),
                                     (ascii ''Budget'', JInt 50000)]])),
              env_fromiso := (\<lambda>s. if s = ascii ''2026-06-01'' then Some ?jun else None)\<rparr>"
  have it: "scrape_item ?E (obj_map [(ascii ''Code'', JStr (ascii ''PRIMA'')),
                                     (ascii ''EndDate'', JStr (ascii ''2026-06-01'')),
                                     (ascii ''Budget'', JInt 50000)])
      = Inr (Some (fresh_row_of ?T (ascii ''PRIMA'') [] ?jun (Some 50000)))"
    by (simp add: scrape_item_def field_def py_or_def truthy_def strip_of_def iso_to_date_def
        offline_def ascii_def py_strip_def py_isspace_def item_budget_def stub_budget_def
        normalize_code_def py_replace1_def obj_map_def)
  have today: "env_today ?E = ?T" by (simp add: offline_def)
  have s: "scrape_api ?E = Inr ([fresh_row_of ?T (ascii ''PRIMA'') [] ?jun (Some 50000)],
                                [fresh_row_of ?T (ascii ''PRIMA'') [] ?jun (Some 50000)])"
  proof -
    have ct: "py_in (ascii ''application/json'') (ascii ''application/json'')"
      by (simp add: ascii_def)
    show ?thesis
      by (simp add: scrape_api_def http_error_def ct json_items_def it)
  qed
  have g: "merge ?T [] [fresh_row_of ?T (ascii ''PRIMA'') [] ?jun (Some (50000 :: int))]
      = Inr [\<lparr>code = ascii ''PRIMA'', deadline = strftime_dbY ?jun, status = OPEN,
               budget = Some 50000\<rparr>]"
    by (simp add: merge_def fresh_row_of_def to_d_strftime printable_examples
        api_step_def build_merged_def sort_by_deadline_def status_of_def ymd_def
        del: One_nat_def)
  show ?thesis
    unfolding ingest_def s by (simp add: today g strftime_examples del: One_nat_def)
qed


text \<open>
  Claim C1 (merge override rule). The deadline of the record of every programme code
  in the merged dataset is the one the override rule gives for that code: the
  deadline seeded from the PDF rows, replaced by an API deadline exactly when no
  deadline is recorded for the code yet or the API deadline is strictly later than the
  recorded one; and every code of a PDF row or an API row has such a record. The first
  part is about the merge alone, which returns such a dataset for rows written from
  printable dates; the second is about every run that ends without an exception, with
  the PDF rows and the API rows that the run wrote.
\<close>

theorem merged_deadline_override:
  fixes fds :: "(ustr \<times> ustr \<times> date \<times> 'f option) list" and E :: "'f env"
    and A :: "('f, 'v) artifacts"
  shows
  "((\<forall>(c, d) \<in> set pds. printable d) \<and> (\<forall>(c, t, d, b) \<in> set fds. printable d) \<longrightarrow>
      (\<exists>merged. merge today (pdf_rows_of pds) (fresh_rows_of today fds) = Inr merged
         \<and> (\<forall>r \<in> set merged. \<exists>d. to_d (deadline r) = Inr d
                \<and> later_wins (pdf_seed (code r) pds) (api_deadlines (code r) fds) = Some d)
         \<and> (\<forall>c \<in> fst ` set pds \<union> api_codes fds. \<exists>r \<in> set merged. code r = c)))
   \<and> ((\<forall>s d. env_fromiso E s = Some d \<longrightarrow> valid_date d)
        \<and> (\<forall>s d. parse s = Some d \<longrightarrow> printable d)
        \<and> 1000 \<le> year (env_today E)
        \<and> ingest E U parse emb files = Inr A \<longrightarrow>
      (\<exists>pds' fds'. pdf_json A = pdf_rows_of pds'
         \<and> fresh_json A = fresh_rows_of (env_today E) fds'
         \<and> (\<forall>r \<in> set (merged_json A). \<exists>d. to_d (deadline r) = Inr d
                \<and> later_wins (pdf_seed (code r) pds') (api_deadlines (code r) fds') = Some d)
         \<and> (\<forall>c \<in> fst ` set pds' \<union> api_codes fds'. \<exists>r \<in> set (merged_json A). code r = c)))"
proof (intro conjI impI)
  assume "(\<forall>(c, d) \<in> set pds. printable d) \<and> (\<forall>(c, t, d, b) \<in> set fds. printable d)"
  then show "\<exists>merged. merge today (pdf_rows_of pds) (fresh_rows_of today fds) = Inr merged
         \<and> (\<forall>r \<in> set merged. \<exists>d. to_d (deadline r) = Inr d
                \<and> later_wins (pdf_seed (code r) pds) (api_deadlines (code r) fds) = Some d)
         \<and> (\<forall>c \<in> fst ` set pds \<union> api_codes fds. \<exists>r \<in> set merged. code r = c)"
    using merge_override_rows [of pds fds today] by blast
next
  assume a: "(\<forall>s d. env_fromiso E s = Some d \<longrightarrow> valid_date d)
        \<and> (\<forall>s d. parse s = Some d \<longrightarrow> printable d)
        \<and> 1000 \<le> year (env_today E)
        \<and> ingest E U parse emb files = Inr A"
  then obtain pds' fds' where
    1: "pdf_json A = pdf_rows_of pds'" and 2: "fresh_json A = fresh_rows_of (env_today E) fds'"
    and 3: "\<forall>(c, d) \<in> set pds'. printable d" and 4: "\<forall>(c, t, d, b) \<in> set fds'. printable d"
    and 5: "merge (env_today E) (pdf_rows_of pds') (fresh_rows_of (env_today E) fds')
         = Inr (merged_json A)"
    using ingest_shape [of E parse U emb files A] by blast
  from merge_override_rows [OF 3 4, of "env_today E"] 5
  have "(\<forall>r \<in> set (merged_json A). \<exists>d. to_d (deadline r) = Inr d
                \<and> later_wins (pdf_seed (code r) pds') (api_deadlines (code r) fds') = Some d)
         \<and> (\<forall>c \<in> fst ` set pds' \<union> api_codes fds'. \<exists>r \<in> set (merged_json A). code r = c)"
    by auto
  with 1 2 show "\<exists>pds' fds'. pdf_json A = pdf_rows_of pds'
         \<and> fresh_json A = fresh_rows_of (env_today E) fds'
         \<and> (\<forall>r \<in> set (merged_json A). \<exists>d. to_d (deadline r) = Inr d
                \<and> later_wins (pdf_seed (code r) pds') (api_deadlines (code r) fds') = Some d)
         \<and> (\<forall>c \<in> fst ` set pds' \<union> api_codes fds'. \<exists>r \<in> set (merged_json A). code r = c)"
    by blast
qed


text \<open>
  The instance of the specification: the PDFs give 2025-01-10 for the code X, the API
  gives 2025-02-01, and the record of X in the merged dataset carries 2025-02-01; for
  the merge alone, and for the run over \<open>X.pdf\<close>.
\<close>

theorem merged_deadline_override_witness:
  "(\<exists>merged.
      merge \<lparr>year = 2025, month = 1, day = 20\<rparr>
        (pdf_rows_of [(ascii ''X'', \<lparr>year = 2025, month = 1, day = 10\<rparr>)])
        (fresh_rows_of \<lparr>year = 2025, month = 1, day = 20\<rparr>
           [(ascii ''X'', [], \<lparr>year = 2025, month = 2, day = 1\<rparr>, None :: int option)])
        = Inr merged
      \<and> (\<exists>r \<in> set merged. code r = ascii ''X'')
      \<and> (\<forall>r \<in> set merged. to_d (deadline r) = Inr \<lparr>year = 2025, month = 2, day = 1\<rparr>))
   \<and> (\<exists>A pds fds.
        ingest
          (offline\<lparr>env_stub := Response 200 (Some (ascii ''application/json'')) []
                       (Some (JArr [JObj [(ascii ''Code'', JStr (ascii ''X'')),
                                          (ascii ''EndDate'', JStr (ascii ''2025-02-01''))]])),
                   env_fromiso := (\<lambda>s. if s = ascii ''2025-02-01''
                                         then Some \<lparr>year = 2025, month = 2, day = 1\<rparr> else None)\<rparr>)
          ascii_db
          (\<lambda>s. if s = ascii ''10 January 2025''
                then Some \<lparr>year = 2025, month = 1, day = 10\<rparr> else None)
          (length :: ustr \<Rightarrow> nat)
          [\<lparr>pdf_name = ascii ''X.pdf'', pdf_stem = ascii ''X'',
            pdf_pages = [\<lparr>text_layer = ascii ''Deadline: 10 January 2025'', ocr_text = []\<rparr>]\<rparr>]
          = Inr A
        \<and> pdf_json A = [pdf_row_of (ascii ''X'') \<lparr>year = 2025, month = 1, day = 10\<rparr>]
        \<and> map code (merged_json A) = [ascii ''X'']
        \<and> map deadline (merged_json A) = [ascii ''01 Feb 2025'']
        \<and> to_d (ascii ''01 Feb 2025'') = Inr \<lparr>year = 2025, month = 2, day = 1\<rparr>
        \<and> pdf_json A = pdf_rows_of pds
        \<and> fresh_json A = fresh_rows_of \<lparr>year = 2025, month = 1, day = 20\<rparr> fds
        \<and> (\<forall>r \<in> set (merged_json A). \<exists>d. to_d (deadline r) = Inr d
               \<and> later_wins (pdf_seed (code r) pds) (api_deadlines (code r) fds) = Some d))"
proof -
  let ?T = "\<lparr>year = 2025, month = 1, day = 20\<rparr>"
  let ?jan = "\<lparr>year = 2025, month = 1, day = 10\<rparr>"
  let ?feb = "\<lparr>year = 2025, month = 2, day = 1\<rparr>"
  let ?pds = "[(ascii ''X'', ?jan)]"
  let ?fds = "[(ascii ''X'', [], ?feb, None :: int option)]"
  let ?E = "offline\<lparr>env_stub := Response 200 (Some (ascii ''application/json'')) []
                  (Some (JArr [JObj [(ascii ''Code'', JStr (ascii ''X'')),
                                     (ascii ''EndDate'', JStr (ascii ''2025-02-01''))]])),
              env_fromiso := (\<lambda>s. if s = ascii ''2025-02-01'' then Some ?feb else None)\<rparr>"
  let ?P = "\<lambda>s. if s = ascii ''10 January 2025'' then Some ?jan else None"
  let ?files = "[\<lparr>pdf_name = ascii ''X.pdf'', pdf_stem = ascii ''X'',
       pdf_pages = [\<lparr>text_layer = ascii ''Deadline: 10 January 2025'', ocr_text = []\<rparr>]\<rparr>]"
  let ?A = "\<lparr>fresh_json = [fresh_row_of ?T (ascii ''X'') [] ?feb (None :: int option)],
          pdf_json = [pdf_row_of (ascii ''X'') ?jan],
          index_file = [25 :: nat],
          meta_file = [\<lparr>meta_text = ascii ''Deadline: 10 January 2025'',
                        meta_source = ascii ''X.pdf''\<rparr>],
          merged_json = [\<lparr>code = ascii ''X'', deadline = ascii ''01 Feb 2025'',
                          status = OPEN, budget = None\<rparr>]\<rparr>"
  note inst = merged_deadline_override [where pds = ?pds and fds = ?fds and today = ?T
      and E = ?E and parse = ?P and U = ascii_db and emb = "length :: ustr \<Rightarrow> nat"
      and files = ?files and A = ?A]
  have h1: "(\<forall>(c, d) \<in> set ?pds. printable d) \<and> (\<forall>(c, t, d, b) \<in> set ?fds. printable d)"
    by (simp add: printable_examples del: One_nat_def)
  from inst [THEN conjunct1, rule_format, OF h1]
  obtain merged where
    m: "merge ?T (pdf_rows_of ?pds) (fresh_rows_of ?T ?fds) = Inr merged"
    and a: "\<forall>r \<in> set merged. \<exists>d. to_d (deadline r) = Inr d
            \<and> later_wins (pdf_seed (code r) ?pds) (api_deadlines (code r) ?fds) = Some d"
    and b: "\<forall>c \<in> fst ` set ?pds \<union> api_codes ?fds. \<exists>r \<in> set merged. code r = c"
    by blast
  have x: "\<exists>r \<in> set merged. code r = ascii ''X''" using b by simp
  have f: "to_d (deadline r) = Inr ?feb" if "r \<in> set merged" for r
  proof -
    from a that obtain d where d: "to_d (deadline r) = Inr d"
      and l: "later_wins (pdf_seed (code r) ?pds) (api_deadlines (code r) ?fds) = Some d"
      by blast
    from l have "d = ?feb"
      by (simp add: later_wins_def pdf_seed_def api_deadlines_def ymd_def split: if_splits)
    with d show ?thesis by simp
  qed
  have part1: "\<exists>merged. merge ?T (pdf_rows_of ?pds) (fresh_rows_of ?T ?fds) = Inr merged
      \<and> (\<exists>r \<in> set merged. code r = ascii ''X'')
      \<and> (\<forall>r \<in> set merged. to_d (deadline r) = Inr ?feb)"
    using m x f by blast
  have run: "ingest ?E ascii_db ?P (length :: ustr \<Rightarrow> nat) ?files = Inr ?A"
    by (rule x_run)
  have today: "env_today ?E = ?T" by (simp add: offline_def)
  have h2: "(\<forall>s d. env_fromiso ?E s = Some d \<longrightarrow> valid_date d)
        \<and> (\<forall>s d. ?P s = Some d \<longrightarrow> printable d)
        \<and> 1000 \<le> year (env_today ?E)
        \<and> ingest ?E ascii_db ?P (length :: ustr \<Rightarrow> nat) ?files = Inr ?A"
  proof (intro conjI allI impI)
    fix s d assume "env_fromiso ?E s = Some d"
    then have "d = ?feb" by (simp split: if_splits)
    then show "valid_date d" using printable_examples(2) by (simp add: printable_def)
  next
    fix s d assume "?P s = Some d"
    then have "d = ?jan" by (simp split: if_splits)
    then show "printable d" using printable_examples(1) by simp
  next
    show "1000 \<le> year (env_today ?E)" by (simp add: today)
  next
    show "ingest ?E ascii_db ?P (length :: ustr \<Rightarrow> nat) ?files = Inr ?A" by (rule run)
  qed
  from inst [THEN conjunct2, rule_format, OF h2]
  obtain pds' fds' where
    1: "pdf_json ?A = pdf_rows_of pds'" and 2: "fresh_json ?A = fresh_rows_of (env_today ?E) fds'"
    and 3: "\<forall>r \<in> set (merged_json ?A). \<exists>d. to_d (deadline r) = Inr d
                \<and> later_wins (pdf_seed (code r) pds') (api_deadlines (code r) fds') = Some d"
    by blast
  have rb: "to_d (ascii ''01 Feb 2025'') = Inr ?feb"
    using to_d_strftime [OF printable_examples(2)] by (simp only: strftime_examples)
  have part2: "ingest ?E ascii_db ?P (length :: ustr \<Rightarrow> nat) ?files = Inr ?A
        \<and> pdf_json ?A = [pdf_row_of (ascii ''X'') ?jan]
        \<and> map code (merged_json ?A) = [ascii ''X'']
        \<and> map deadline (merged_json ?A) = [ascii ''01 Feb 2025'']
        \<and> to_d (ascii ''01 Feb 2025'') = Inr ?feb
        \<and> pdf_json ?A = pdf_rows_of pds'
        \<and> fresh_json ?A = fresh_rows_of ?T fds'
        \<and> (\<forall>r \<in> set (merged_json ?A). \<exists>d. to_d (deadline r) = Inr d
               \<and> later_wins (pdf_seed (code r) pds') (api_deadlines (code r) fds') = Some d)"
    using run rb 1 2 [unfolded today] 3 by simp
  show ?thesis
    apply (rule conjI)
     apply (rule part1)
    apply (rule exI [of _ ?A], rule exI [of _ pds'], rule exI [of _ fds'])
    apply (rule part2)
    done
qed


text \<open>
  Claim C2 (merged dataset). The deadlines of the merged dataset, read back as dates,
  ascend, and the dataset holds exactly one record for every programme code that
  occurs in a PDF row or an API row, and no other record. The first part is about the
  merge alone, which returns such a dataset for rows written from printable dates; the
  second is about every run that ends without an exception, with the PDF rows and the
  API rows that the run wrote.
\<close>

theorem merged_dataset_sorted_unique:
  fixes fds :: "(ustr \<times> ustr \<times> date \<times> 'f option) list" and E :: "'f env"
    and A :: "('f, 'v) artifacts"
  shows
  "((\<forall>(c, d) \<in> set pds. printable d) \<and> (\<forall>(c, t, d, b) \<in> set fds. printable d) \<longrightarrow>
      (\<exists>merged ds. merge today (pdf_rows_of pds) (fresh_rows_of today fds) = Inr merged
         \<and> map (\<lambda>r. to_d (deadline r)) merged = map Inr ds
         \<and> sorted (map ymd ds)
         \<and> distinct (map code merged)
         \<and> set (map code merged) = fst ` set pds \<union> api_codes fds))
   \<and> ((\<forall>s d. env_fromiso E s = Some d \<longrightarrow> valid_date d)
        \<and> (\<forall>s d. parse s = Some d \<longrightarrow> printable d)
        \<and> 1000 \<le> year (env_today E)
        \<and> ingest E U parse emb files = Inr A \<longrightarrow>
      (\<exists>ds. map (\<lambda>r. to_d (deadline r)) (merged_json A) = map Inr ds
         \<and> sorted (map ymd ds)
         \<and> distinct (map code (merged_json A))
         \<and> set (map code (merged_json A))
             = set (map code (pdf_json A)) \<union> set (map code (fresh_json A))))"
proof (intro conjI impI)
  assume "(\<forall>(c, d) \<in> set pds. printable d) \<and> (\<forall>(c, t, d, b) \<in> set fds. printable d)"
  then show "\<exists>merged ds. merge today (pdf_rows_of pds) (fresh_rows_of today fds) = Inr merged
         \<and> map (\<lambda>r. to_d (deadline r)) merged = map Inr ds
         \<and> sorted (map ymd ds)
         \<and> distinct (map code merged)
         \<and> set (map code merged) = fst ` set pds \<union> api_codes fds"
    using merge_sorted_rows [of pds fds today] by blast
next
  assume a: "(\<forall>s d. env_fromiso E s = Some d \<longrightarrow> valid_date d)
        \<and> (\<forall>s d. parse s = Some d \<longrightarrow> printable d)
        \<and> 1000 \<le> year (env_today E)
        \<and> ingest E U parse emb files = Inr A"
  then obtain pds' fds' where
    1: "pdf_json A = pdf_rows_of pds'" and 2: "fresh_json A = fresh_rows_of (env_today E) fds'"
    and 3: "\<forall>(c, d) \<in> set pds'. printable d" and 4: "\<forall>(c, t, d, b) \<in> set fds'. printable d"
    and 5: "merge (env_today E) (pdf_rows_of pds') (fresh_rows_of (env_today E) fds')
         = Inr (merged_json A)"
    using ingest_shape [of E parse U emb files A] by blast
  have c1: "set (map code (pdf_json A)) = fst ` set pds'"
    unfolding 1 by (force simp add: pdf_rows_of_def pdf_row_of_def image_iff)
  have c2: "set (map code (fresh_json A)) = api_codes fds'"
    unfolding 2 by (force simp add: fresh_rows_of_def fresh_row_of_def api_codes_def image_iff)
  from merge_sorted_rows [OF 3 4, of "env_today E"] 5
  show "\<exists>ds. map (\<lambda>r. to_d (deadline r)) (merged_json A) = map Inr ds
         \<and> sorted (map ymd ds)
         \<and> distinct (map code (merged_json A))
         \<and> set (map code (merged_json A))
             = set (map code (pdf_json A)) \<union> set (map code (fresh_json A))"
    unfolding c1 c2 by auto
qed


text \<open>
  Two instances: the merge of the PDF rows of X and Y with an API row of X, and the run
  with an empty PDF directory and the stub record of PRIMA, whose merged dataset is the
  one record of PRIMA.
\<close>

theorem merged_dataset_sorted_unique_witness:
  "(\<exists>merged ds.
      merge \<lparr>year = 2025, month = 1, day = 20\<rparr>
        (pdf_rows_of [(ascii ''X'', \<lparr>year = 2025, month = 1, day = 10\<rparr>),
                      (ascii ''Y'', \<lparr>year = 2025, month = 1, day = 5\<rparr>)])
        (fresh_rows_of \<lparr>year = 2025, month = 1, day = 20\<rparr>
           [(ascii ''X'', [], \<lparr>year = 2025, month = 2, day = 1\<rparr>, None :: int option)])
        = Inr merged
      \<and> map (\<lambda>r. to_d (deadline r)) merged = map Inr ds
      \<and> sorted (map ymd ds)
      \<and> distinct (map code merged)
      \<and> set (map code merged) = {ascii ''X'', ascii ''Y''})
   \<and> (\<exists>A ds.
        ingest
          (offline\<lparr>env_stub := Response 200 (Some (ascii ''application/json'')) []
                       (Some (JArr [JObj [(ascii ''Code'', JStr (ascii ''PRIMA'')),
                                          (ascii ''EndDate'', JStr (ascii ''2026-06-01'')),
                                          (ascii ''Budget'', JInt 50000)]])),
                   env_fromiso := (\<lambda>s. if s = ascii ''2026-06-01''
                                         then Some \<lparr>year = 2026, month = 6, day = 1\<rparr> else None)\<rparr>)
          ascii_db (\<lambda>s. None) (length :: ustr \<Rightarrow> nat) []
          = Inr A
        \<and> merged_json A = [\<lparr>code = ascii ''PRIMA'', deadline = ascii ''01 Jun 2026'',
                             status = OPEN, budget = Some 50000\<rparr>]
        \<and> pdf_json A = [] \<and> index_file A = []
        \<and> map (\<lambda>r. to_d (deadline r)) (merged_json A) = map Inr ds
        \<and> sorted (map ymd ds)
        \<and> distinct (map code (merged_json A))
        \<and> set (map code (merged_json A))
            = set (map code (pdf_json A)) \<union> set (map code (fresh_json A)))"
proof -
  let ?T = "\<lparr>year = 2025, month = 1, day = 20\<rparr>"
  let ?jan = "\<lparr>year = 2025, month = 1, day = 10\<rparr>"
  let ?j5 = "\<lparr>year = 2025, month = 1, day = 5\<rparr>"
  let ?feb = "\<lparr>year = 2025, month = 2, day = 1\<rparr>"
  let ?jun = "\<lparr>year = 2026, month = 6, day = 1\<rparr>"
  let ?pds = "[(ascii ''X'', ?jan), (ascii ''Y'', ?j5)]"
  let ?fds = "[(ascii ''X'', [], ?feb, None :: int option)]"
  let ?E = "offline\<lparr>env_stub := Response 200 (Some (ascii ''application/json'')) []
                  (Some (JArr [JObj [(ascii ''Code'', JStr (ascii ''PRIMA'')),
                                     (ascii ''EndDate'', JStr (ascii ''2026-06-01'')),
                                     (ascii ''Budget'', JInt 50000)]])),
              env_fromiso := (\<lambda>s. if s = ascii ''2026-06-01'' then Some ?jun else None)\<rparr>"
  let ?P = "\<lambda>s :: ustr. None :: date option"
  let ?A = "\<lparr>fresh_json = [fresh_row_of ?T (ascii ''PRIMA'') [] ?jun (Some (50000 :: int))],
          pdf_json = [],
          index_file = [] :: nat list,
          meta_file = [],
          merged_json = [\<lparr>code = ascii ''PRIMA'', deadline = ascii ''01 Jun 2026'',
                          status = OPEN, budget = Some 50000\<rparr>]\<rparr>"
  note inst = merged_dataset_sorted_unique [where pds = ?pds and fds = ?fds and today = ?T
      and E = ?E and parse = ?P and U = ascii_db and emb = "length :: ustr \<Rightarrow> nat"
      and files = "[]" and A = ?A]
  have h1: "(\<forall>(c, d) \<in> set ?pds. printable d) \<and> (\<forall>(c, t, d, b) \<in> set ?fds. printable d)"
    by (simp add: printable_examples del: One_nat_def)
  have k: "fst ` set ?pds \<union> api_codes ?fds = {ascii ''X'', ascii ''Y''}"
    by (simp add: api_codes_def)
  have part1: "\<exists>merged ds. merge ?T (pdf_rows_of ?pds) (fresh_rows_of ?T ?fds) = Inr merged
      \<and> map (\<lambda>r. to_d (deadline r)) merged = map Inr ds
      \<and> sorted (map ymd ds)
      \<and> distinct (map code merged)
      \<and> set (map code merged) = {ascii ''X'', ascii ''Y''}"
    using inst [THEN conjunct1, rule_format, OF h1] unfolding k by blast
  have run: "ingest ?E ascii_db ?P (length :: ustr \<Rightarrow> nat) [] = Inr ?A"
    by (rule prima_run)
  have today: "env_today ?E = ?T" by (simp add: offline_def)
  have h2: "(\<forall>s d. env_fromiso ?E s = Some d \<longrightarrow> valid_date d)
        \<and> (\<forall>s d. ?P s = Some d \<longrightarrow> printable d)
        \<and> 1000 \<le> year (env_today ?E)
        \<and> ingest ?E ascii_db ?P (length :: ustr \<Rightarrow> nat) [] = Inr ?A"
  proof (intro conjI allI impI)
    fix s d assume "env_fromiso ?E s = Some d"
    then have "d = ?jun" by (simp split: if_splits)
    then show "valid_date d" using printable_examples(4) by (simp add: printable_def)
  next
    fix s :: ustr and d :: date assume "None = Some d"
    then show "printable d" by simp
  next
    show "1000 \<le> year (env_today ?E)" by (simp add: today)
  next
    show "ingest ?E ascii_db ?P (length :: ustr \<Rightarrow> nat) [] = Inr ?A" by (rule run)
  qed
  from inst [THEN conjunct2, rule_format, OF h2]
  obtain ds where
    1: "map (\<lambda>r. to_d (deadline r)) (merged_json ?A) = map Inr ds"
    and 2: "sorted (map ymd ds)"
    and 3: "distinct (map code (merged_json ?A))"
    and 4: "set (map code (merged_json ?A))
            = set (map code (pdf_json ?A)) \<union> set (map code (fresh_json ?A))"
    by blast
  have part2: "ingest ?E ascii_db ?P (length :: ustr \<Rightarrow> nat) [] = Inr ?A
        \<and> merged_json ?A = [\<lparr>code = ascii ''PRIMA'', deadline = ascii ''01 Jun 2026'',
                             status = OPEN, budget = Some 50000\<rparr>]
        \<and> pdf_json ?A = [] \<and> index_file ?A = []
        \<and> map (\<lambda>r. to_d (deadline r)) (merged_json ?A) = map Inr ds
        \<and> sorted (map ymd ds)
        \<and> distinct (map code (merged_json ?A))
        \<and> set (map code (merged_json ?A))
            = set (map code (pdf_json ?A)) \<union> set (map code (fresh_json ?A))"
    using run 1 2 3 4 by simp
  show ?thesis
    apply (rule conjI)
     apply (rule part1)
    apply (rule exI [of _ ?A], rule exI [of _ ds])
    apply (rule part2)
    done
qed

end
